theory Spec2Isabelle
  imports Main "HOL-Library.AList" "HOL-Library.Char_ord" "HOL-Library.List_Lexorder"
    "HOL-Library.Sublist"
begin

section \<open>Python string primitives used by svgplot.py\<close>

text \<open>
  Python's \<open>str.replace(old, new)\<close> for two one-character strings: every occurrence of
  \<open>old\<close> becomes \<open>new\<close>.
\<close>

definition replace_char :: "char \<Rightarrow> char \<Rightarrow> string \<Rightarrow> string" where
  "replace_char old new s = map (\<lambda>c. if c = old then new else c) s"

text \<open>
  Python's \<open>str.rpartition(sep)\<close> for a one-character separator: the string is split at
  the last occurrence of \<open>sep\<close> into (before, sep, after); when \<open>sep\<close> does not occur the
  result is two empty strings followed by the whole string.
\<close>

fun rpartition :: "char \<Rightarrow> string \<Rightarrow> string \<times> string \<times> string" where
  "rpartition sep [] = ([], [], [])"
| "rpartition sep (x # xs) =
     (case rpartition sep xs of
        (before, found, after) \<Rightarrow>
          if found \<noteq> [] then (x # before, found, after)
          else if x = sep then ([], [sep], after)
          else ([], [], x # after))"

text \<open>
  \<open>"".join(filter(None, parts))\<close>: the empty strings are dropped and the others are
  concatenated.
\<close>

definition join_nonempty :: "string list \<Rightarrow> string" where
  "join_nonempty parts = concat (filter (\<lambda>p. p \<noteq> []) parts)"

text \<open>
  \<open>sep.join(parts)\<close>.
\<close>

fun py_join :: "string \<Rightarrow> string list \<Rightarrow> string" where
  "py_join sep [] = []"
| "py_join sep [w] = w"
| "py_join sep (w # ws) = w @ sep @ py_join sep ws"

text \<open>
  \<open>s.split(sep)\<close> for a one-character separator: the pieces between the occurrences of
  \<open>sep\<close>, empty pieces included, so the result is never the empty list
  (\<open>"".split(";") == [""]\<close>).
\<close>

fun split_on :: "char \<Rightarrow> string \<Rightarrow> string list" where
  "split_on sep [] = [[]]"
| "split_on sep (x # xs) =
     (if x = sep then [] # split_on sep xs
      else (case split_on sep xs of
              [] \<Rightarrow> [[x]]
            | w # ws \<Rightarrow> (x # w) # ws))"

text \<open>
  A character of a string is a code point below 256. Whitespace as \<open>str.isspace\<close>,
  \<open>str.strip\<close> and the regular expression class \<open>\s\<close> see it on that range: tab, line
  feed, vertical tab, form feed, carriage return, the four separators 0x1C to 0x1F, the
  space, the next-line control 0x85 and the no-break space 0xA0.
\<close>

definition isspace :: "char \<Rightarrow> bool" where
  "isspace c \<longleftrightarrow>
     c \<in> {CHR 0x09, CHR 0x0A, CHR 0x0B, CHR 0x0C, CHR 0x0D,
          CHR 0x1C, CHR 0x1D, CHR 0x1E, CHR 0x1F, CHR 0x20, CHR 0x85, CHR 0xA0}"

text \<open>\<open>s.strip()\<close>: the whitespace at both ends is removed.\<close>

definition strip :: "string \<Rightarrow> string" where
  "strip s = rev (dropWhile isspace (rev (dropWhile isspace s)))"

text \<open>\<open>s.startswith(prefix)\<close>.\<close>

definition startswith :: "string \<Rightarrow> string \<Rightarrow> bool" where
  "startswith s pre \<longleftrightarrow> take (length pre) s = pre"

section \<open>SVG.uid: the inner function insert\<close>

text \<open>
  \<^verbatim>\<open>
  def insert(string, ins):
      string = string.replace("_", "-")
      parts = []
      prefix, sharp, string = string.rpartition("#")
      parts.extend([prefix, sharp])
      before, dash, after = string.rpartition("-")
      parts.extend([before, dash, ins, "-", after])
      return "".join(filter(None, parts))
  \<close>
\<close>

definition insert_uid :: "string \<Rightarrow> string \<Rightarrow> string" where
  "insert_uid string ins =
     (let string1 = replace_char (CHR ''_'') (CHR ''-'') string in
      case rpartition (CHR ''#'') string1 of
        (prefix', sharp, string2) \<Rightarrow>
          (case rpartition (CHR ''-'') string2 of
             (before, dash, after) \<Rightarrow>
               join_nonempty [prefix', sharp, before, dash, ins, ''-'', after]))"

text \<open>
  The rewrite as the specification words it, for comparison with \<open>insert_uid\<close>: underscores
  become hyphens, the prefix up to and including the last \<open>#\<close> is kept, the remainder is
  split at its last hyphen into before and after, and the segments before, unique id and
  after are joined by hyphens with the empty segments and their separators left out.
\<close>

definition upto_last :: "char \<Rightarrow> string \<Rightarrow> string" where
  "upto_last c s = rev (dropWhile (\<lambda>x. x \<noteq> c) (rev s))"

definition after_last :: "char \<Rightarrow> string \<Rightarrow> string" where
  "after_last c s = rev (takeWhile (\<lambda>x. x \<noteq> c) (rev s))"

definition spec_insert :: "string \<Rightarrow> string \<Rightarrow> string" where
  "spec_insert s u =
     (let s1 = replace_char (CHR ''_'') (CHR ''-'') s;
          rest = after_last (CHR ''#'') s1;
          before = butlast (upto_last (CHR ''-'') rest);
          after = after_last (CHR ''-'') rest
      in upto_last (CHR ''#'') s1 @
         py_join ''-'' (filter (\<lambda>p. p \<noteq> []) [before, u, after]))"

section \<open>StyleMap\<close>

datatype error = KeyError | ValueError | AssertionError | AttributeError

text \<open>The class attributes of \<open>StyleMap\<close>; a dict is an association list in insertion order.\<close>

definition global_defaults :: "(string \<times> string) list" where
  "global_defaults = [(''stroke-linecap'', ''butt''), (''stroke-linejoin'', ''round'')]"

definition text_defaults :: "(string \<times> string) list" where
  "text_defaults = [(''stroke'', ''none''), (''fill'', ''#000000'')]"

definition stroke :: "(string \<times> string) list" where
  "stroke =
     [(''#ffffff'', ''primary''), (''#000000'', ''primary-text''), (''#cccccc'', ''secondary''),
      (''#1f77b4'', ''blue''), (''#ff7f0e'', ''orange''), (''#2ca02c'', ''green''),
      (''#d62728'', ''red''), (''#9467bd'', ''purple''), (''#8c564b'', ''brown''),
      (''#e377c2'', ''pink''), (''#7f7f7f'', ''grey''), (''#bcbd22'', ''olive''),
      (''#17becf'', ''cyan'')]"

definition fill :: "(string \<times> string) list" where
  "fill = [(''none'', ''no-fill''), (''#ffffff'', ''bg'')]"

definition stroke_width :: "(string \<times> string) list" where
  "stroke_width = [(''0.8'', ''thin''), (''1.5'', ''thick'')]"

definition stroke_line_join :: "(string \<times> string) list" where
  "stroke_line_join = [(''round'', ''rounded''), (''miter'', ''miter'')]"

definition stroke_line_cap :: "(string \<times> string) list" where
  "stroke_line_cap = [(''butt'', ''butt''), (''square'', ''square'')]"

definition font :: "(string \<times> string) list" where
  "font = [(''10px '' @ [CHR 0x27] @ ''sans-serif'' @ [CHR 0x27], ''regular'')]"

definition text_anchor :: "(string \<times> string) list" where
  "text_anchor = [(''start'', ''left-align''), (''middle'', ''center-align''),
     (''end'', ''right-align'')]"

definition attributes :: "(string \<times> (string \<times> string) list) list" where
  "attributes =
     [(''fill'', fill), (''stroke'', stroke), (''stroke-width'', stroke_width),
      (''stroke-linejoin'', stroke_line_join), (''stroke-linecap'', stroke_line_cap),
      (''font'', font), (''text-anchor'', text_anchor)]"

text \<open>
  \<^verbatim>\<open>
  def parse(string):
      if string == "":
          return
      for rule in string.split(";"):
          yield tuple(map(str.strip, rule.split(":")))
  \<close>
  A yielded tuple has as many components as the rule has colons, plus one.
\<close>

definition parse :: "string \<Rightarrow> string list list" where
  "parse string =
     (if string = [] then []
      else map (\<lambda>rule. map strip (split_on (CHR '':'') rule)) (split_on (CHR '';'') string))"

text \<open>\<open>cls.attributes[attr][value]\<close>: either subscript raises KeyError on a missing key.\<close>

definition lookup_class :: "string \<Rightarrow> string \<Rightarrow> error + string" where
  "lookup_class attr v =
     (case map_of attributes attr of
        None \<Rightarrow> Inl KeyError
      | Some grp \<Rightarrow> (case map_of grp v of None \<Rightarrow> Inl KeyError | Some c \<Rightarrow> Inr c))"

text \<open>
  The two loops of \<open>StyleMap.classify\<close>, each appending to \<open>classes\<close>. The second unpacks
  every parsed tuple into \<open>attr, value\<close>, which raises ValueError unless the tuple has
  exactly two components.
\<close>

fun classify_items :: "(string \<times> string) list \<Rightarrow> string list \<Rightarrow> error + string list" where
  "classify_items [] classes = Inr classes"
| "classify_items ((attr, v) # items) classes =
     (case lookup_class attr v of
        Inl e \<Rightarrow> Inl e
      | Inr c \<Rightarrow> classify_items items (classes @ [c]))"

fun classify_rules :: "string list list \<Rightarrow> string list \<Rightarrow> error + string list" where
  "classify_rules [] classes = Inr classes"
| "classify_rules ([attr, v] # rules) classes =
     (case lookup_class attr v of
        Inl e \<Rightarrow> Inl e
      | Inr c \<Rightarrow> classify_rules rules (classes @ [c]))"
| "classify_rules (_ # rules) classes = Inl ValueError"

definition StyleMap_classify :: "string \<Rightarrow> error + string" where
  "StyleMap_classify style =
     (case classify_items global_defaults [] of
        Inl e \<Rightarrow> Inl e
      | Inr classes \<Rightarrow>
          (case classify_rules (parse style) classes of
             Inl e \<Rightarrow> Inl e
           | Inr classes' \<Rightarrow> Inr (py_join '' '' classes')))"

text \<open>
  \<open>StyleMap.tostring\<close>: one rule \<open>.selector { attr: rule; }\<close> for every entry of every
  group, then the rule of the class \<open>text\<close>, all concatenated.
\<close>

definition StyleMap_tostring :: "string" where
  "StyleMap_tostring =
     (let ruleset =
            concat (map (\<lambda>(attr, grp).
              map (\<lambda>(rule, selector).
                ''.'' @ selector @ '' { '' @ attr @ '': '' @ rule @ ''; }'') grp) attributes);
          text_rule = py_join ''; '' (map (\<lambda>(attr, rule). attr @ '': '' @ rule) text_defaults)
      in concat (ruleset @ [''.'' @ ''text'' @ '' { '' @ text_rule @ ''; }'']))"

section \<open>The element tree\<close>

text \<open>
  An \<open>xml.etree.ElementTree.Element\<close>: tag, attribute dict (an association list in
  insertion order, one entry per key), text (\<open>text_of\<close>), tail and children. \<open>None\<close> for an absent text
  or tail.
\<close>

datatype element =
  Element (tag: string) (attrib: "(string \<times> string) list")
    (text_of: "string option") (tail: "string option") (children: "element list")

text \<open>\<open>el.get(key)\<close>, \<open>el.set(key, value)\<close> and \<open>el.attrib.pop(key, default)\<close>.\<close>

definition el_get :: "element \<Rightarrow> string \<Rightarrow> string option" where
  "el_get e k = map_of (attrib e) k"

definition el_set :: "string \<Rightarrow> string \<Rightarrow> element \<Rightarrow> element" where
  "el_set k v e = Element (tag e) (AList.update k v (attrib e)) (text_of e) (tail e) (children e)"

definition attrib_pop :: "string \<Rightarrow> string \<Rightarrow> element \<Rightarrow> string \<times> element" where
  "attrib_pop k d e =
     (case map_of (attrib e) k of None \<Rightarrow> d | Some v \<Rightarrow> v,
      Element (tag e) (AList.delete k (attrib e)) (text_of e) (tail e) (children e))"

text \<open>
  An element is named by its position: the list of child indices that leads to it from
  the root, the empty list for the root itself.
\<close>

type_synonym path = "nat list"

fun get_at :: "element \<Rightarrow> path \<Rightarrow> element option" where
  "get_at e [] = Some e"
| "get_at e (i # p) =
     (if i < length (children e) then get_at (children e ! i) p else None)"

fun update_at :: "(element \<Rightarrow> element) \<Rightarrow> path \<Rightarrow> element \<Rightarrow> element" where
  "update_at f [] e = f e"
| "update_at f (i # p) e =
     (if i < length (children e)
      then Element (tag e) (attrib e) (text_of e) (tail e)
             ((children e)[i := update_at f p (children e ! i)])
      else e)"

text \<open>All elements of a tree in document order, the root first.\<close>

fun elements :: "element \<Rightarrow> element list" where
  "elements (Element t a tx ta cs) = Element t a tx ta cs # concat (map elements cs)"

section \<open>SVG\<close>

record svg =
  el :: element
  namespaces :: "(string \<times> string) list"
  svg_id :: string

text \<open>
  \<^verbatim>\<open>
  def set_none(el, attr, value):
      attrs = chain(el.get(attr, "").split(" "), value.split(" "))
      attrs = sorted(set(attrs))
      new_value = " ".join(filter(None, attrs))
      if new_value:
          el.set(attr, new_value)
  \<close>
  \<open>sorted(set(...))\<close> orders the distinct strings by code points, which is the
  lexicographic order of character lists.
\<close>

definition set_none :: "string \<Rightarrow> string \<Rightarrow> element \<Rightarrow> element" where
  "set_none attr v e =
     (let attrs = split_on (CHR '' '') (case el_get e attr of None \<Rightarrow> [] | Some old \<Rightarrow> old)
                  @ split_on (CHR '' '') v;
          attrs = sort (remdups attrs);
          new_value = py_join '' '' (filter (\<lambda>a. a \<noteq> []) attrs)
      in if new_value \<noteq> [] then el_set attr new_value e else e)"

text \<open>
  \<open>re.sub(r"^\s+|\s+$|\s+(?=\s)", "", string)\<close>, scanning from the left. The flag tells
  whether the scan is at the start of the string. At a whitespace run: at the start the
  first alternative deletes the whole run; a run that reaches the end of the string is
  deleted whole by the second alternative; of any other run of two or more the third
  alternative deletes all but the last character, which the look-ahead needs, and the
  scan then copies that character as it copies a run of one. Every other character is
  copied.
\<close>

function re_sub_slim :: "bool \<Rightarrow> string \<Rightarrow> string" where
  "re_sub_slim at_start s =
     (if s = [] then []
      else if takeWhile isspace s = [] then hd s # re_sub_slim False (tl s)
      else if at_start then re_sub_slim False (dropWhile isspace s)
      else if dropWhile isspace s = [] then []
      else if 2 \<le> length (takeWhile isspace s)
        then last (takeWhile isspace s) # re_sub_slim False (dropWhile isspace s)
      else hd s # re_sub_slim False (dropWhile isspace s))"
  by pat_completeness auto
termination
proof (relation "measure (\<lambda>(b, s). length s)")
  show "wf (measure (\<lambda>(b, s). length s))" by simp
next
  fix at_start :: bool and s :: string
  assume "s \<noteq> []"
  then show "((False, tl s), (at_start, s)) \<in> measure (\<lambda>(b, s). length s)"
    by (cases s) simp_all
next
  fix at_start :: bool and s :: string
  assume "takeWhile isspace s \<noteq> []"
  then have "length (dropWhile isspace s) < length s"
    by (cases s) (auto simp: less_Suc_eq_le length_dropWhile_le split: if_splits)
  then show "((False, dropWhile isspace s), (at_start, s)) \<in> measure (\<lambda>(b, s). length s)"
    by simp
next
  fix at_start :: bool and s :: string
  assume "takeWhile isspace s \<noteq> []"
  then have "length (dropWhile isspace s) < length s"
    by (cases s) (auto simp: less_Suc_eq_le length_dropWhile_le split: if_splits)
  then show "((False, dropWhile isspace s), (at_start, s)) \<in> measure (\<lambda>(b, s). length s)"
    by simp
next
  fix at_start :: bool and s :: string
  assume "takeWhile isspace s \<noteq> []"
  then have "length (dropWhile isspace s) < length s"
    by (cases s) (auto simp: less_Suc_eq_le length_dropWhile_le split: if_splits)
  then show "((False, dropWhile isspace s), (at_start, s)) \<in> measure (\<lambda>(b, s). length s)"
    by simp
qed

declare re_sub_slim.simps [simp del]

text \<open>
  \<^verbatim>\<open>
  def slim(self):
      for c in self.el.iter():
          c.text = c.text.strip() if c.text is not None else None
          c.tail = None
      _slim = lambda string: re.sub(r"^\s+|\s+$|\s+(?=\s)", "", string)
      for c in self.el.iter():
          for att in c.keys():
              c.set(att, _slim(c.get(att)))
  \<close>
  \<open>Element.iter()\<close> visits the element itself and every element below it. The inner loop
  sets every key of the dict to the slimmed value it had, in place.
\<close>

fun slim_text :: "element \<Rightarrow> element" where
  "slim_text (Element t a tx ta cs) =
     Element t a (case tx of None \<Rightarrow> None | Some s \<Rightarrow> Some (strip s)) None (map slim_text cs)"

fun slim_attrib :: "element \<Rightarrow> element" where
  "slim_attrib (Element t a tx ta cs) =
     Element t (map (\<lambda>(att, v). (att, re_sub_slim True v)) a) tx ta (map slim_attrib cs)"

definition slim :: "svg \<Rightarrow> svg" where
  "slim self = self\<lparr>el := slim_attrib (slim_text (el self))\<rparr>"

section \<open>SVG.iter and the loops over it\<close>

text \<open>
  The path expressions that svgplot.py hands to \<open>iterfind\<close>: the wildcard \<open>"*"\<close>, a tag
  name such as \<open>"path"\<close>, and an attribute predicate such as \<open>"[@id]"\<close>.
\<close>

datatype pattern = Star | Child string | HasAttr string

text \<open>
  ElementPath resolves a tag name of the expression against the namespace dict: a name
  that does not start with \<open>{\<close> is put into the default namespace, the entry of the empty
  prefix, when there is a non-empty one. The names used here hold no prefix.
\<close>

definition qualify :: "(string \<times> string) list \<Rightarrow> string \<Rightarrow> string" where
  "qualify ns t =
     (case map_of ns [] of
        None \<Rightarrow> t
      | Some uri \<Rightarrow> if uri = [] \<or> take 1 t = ''{'' then t else ''{'' @ uri @ ''}'' @ t)"

text \<open>
  \<open>el.iterfind(tag, namespaces)\<close> for these expressions, as positions relative to \<open>el\<close>:
  the wildcard selects every child, a tag name the children of that tag, and an attribute
  predicate, which filters the context node, selects \<open>el\<close> itself when it has the
  attribute.
\<close>

definition iterfind :: "(string \<times> string) list \<Rightarrow> pattern \<Rightarrow> element \<Rightarrow> path list" where
  "iterfind ns pat e =
     (case pat of
        Star \<Rightarrow> map (\<lambda>(i, c). [i]) (enumerate 0 (children e))
      | Child t \<Rightarrow>
          map (\<lambda>(i, c). [i])
            (filter (\<lambda>(i, c). tag c = qualify ns t) (enumerate 0 (children e)))
      | HasAttr k \<Rightarrow> (if el_get e k \<noteq> None then [[]] else []))"

text \<open>
  \<^verbatim>\<open>
  def _iter(cls, el, tag, namespaces):
      yield from el.iterfind(tag, namespaces)
      yield from chain.from_iterable(cls._iter(c, tag, namespaces) for c in el)

  def iter(self, tag="*"):
      yield from self._iter(self.el, tag, self.namespaces)
  \<close>
  The elements are yielded as positions relative to \<open>el\<close>.
\<close>

function iter_rec :: "(string \<times> string) list \<Rightarrow> pattern \<Rightarrow> element \<Rightarrow> path list" where
  "iter_rec ns pat (Element t a tx ta cs) =
     iterfind ns pat (Element t a tx ta cs) @
     concat (map (\<lambda>(i, c). map ((#) i) (iter_rec ns pat c)) (enumerate 0 cs))"
  by pat_completeness auto
termination
proof (relation "measure (\<lambda>(ns, pat, e). size e)")
  show "wf (measure (\<lambda>(ns, pat, e). size e))" by simp
next
  fix ns :: "(string \<times> string) list" and pat :: pattern and t a tx ta cs
    and x :: "nat \<times> element" and i :: nat and c :: element
  assume "x \<in> set (enumerate 0 cs)" and "(i, c) = x"
  then have "c \<in> set cs" by (auto simp: in_set_enumerate_eq)
  then have "size c < Suc (size_list size cs)"
    by (induction cs) auto
  then show "((ns, pat, c), (ns, pat, Element t a tx ta cs)) \<in> measure (\<lambda>(ns, pat, e). size e)"
    by simp
qed

definition iter_svg :: "svg \<Rightarrow> pattern \<Rightarrow> path list" where
  "iter_svg self pat = iter_rec (namespaces self) pat (el self)"

text \<open>
  \<open>for el in self.iter(...): body(el)\<close>, where the body changes the attributes of \<open>el\<close>
  in place and may raise. No body of svgplot.py changes a tag, a list of children or the
  presence of the attribute that its own loop selects on, so the generator yields the
  elements it would yield on the tree as it was when the loop began. Every position that
  \<open>iter_rec\<close> yields is in the tree; the branch for a position that is not carries on
  with the next.
\<close>

fun for_each :: "(element \<Rightarrow> error + element) \<Rightarrow> path list \<Rightarrow> element \<Rightarrow> error + element" where
  "for_each body [] root = Inr root"
| "for_each body (p # ps) root =
     (case get_at root p of
        None \<Rightarrow> for_each body ps root
      | Some e \<Rightarrow>
          (case body e of
             Inl err \<Rightarrow> Inl err
           | Inr e' \<Rightarrow> for_each body ps (update_at (\<lambda>_. e') p root)))"

text \<open>
  \<^verbatim>\<open>
  for el in self.iter("[@id]"):
      id_ = insert(el.get("id"), self.id)
      el.set("id", id_)
  \<close>
  and the same for \<open>href\<close> and \<open>clip-path\<close>. \<open>insert\<close> on a missing value would raise
  AttributeError at \<open>None.replace\<close>.
\<close>

definition uid_body :: "string \<Rightarrow> string \<Rightarrow> element \<Rightarrow> error + element" where
  "uid_body key ins e =
     (case el_get e key of
        None \<Rightarrow> Inl AttributeError
      | Some v \<Rightarrow> Inr (el_set key (insert_uid v ins) e))"

definition uid_loop :: "svg \<Rightarrow> string \<Rightarrow> element \<Rightarrow> error + element" where
  "uid_loop self key root =
     for_each (uid_body key (svg_id self)) (iter_rec (namespaces self) (HasAttr key) root) root"

definition uid :: "svg \<Rightarrow> error + svg" where
  "uid self =
     (case uid_loop self ''id'' (el self) of
        Inl err \<Rightarrow> Inl err
      | Inr r1 \<Rightarrow>
     (case uid_loop self ''href'' r1 of
        Inl err \<Rightarrow> Inl err
      | Inr r2 \<Rightarrow>
     (case uid_loop self ''clip-path'' r2 of
        Inl err \<Rightarrow> Inl err
      | Inr r3 \<Rightarrow> Inr (self\<lparr>el := r3\<rparr>))))"

text \<open>
  The bodies of the four loops of \<open>SVG.classify\<close>. The style is popped before
  \<open>StyleMap.classify\<close> runs on it.
\<close>

definition classify_style :: "element \<Rightarrow> error + element" where
  "classify_style e =
     (case attrib_pop ''style'' [] e of
        (style, e1) \<Rightarrow>
          (case StyleMap_classify style of
             Inl err \<Rightarrow> Inl err
           | Inr cls \<Rightarrow> Inr (set_none ''class'' cls e1)))"

definition classify_id :: "element \<Rightarrow> error + element" where
  "classify_id e =
     (case el_get e ''id'' of
        None \<Rightarrow> Inl AttributeError
      | Some v \<Rightarrow>
          if startswith v ''DejaVuSans'' then Inr (set_none ''class'' ''text'' e) else Inr e)"

definition classify_text :: "element \<Rightarrow> error + element" where
  "classify_text e =
     (case classify_style e of
        Inl err \<Rightarrow> Inl err
      | Inr e1 \<Rightarrow> Inr (set_none ''class'' ''text'' e1))"

text \<open>
  The property \<open>style\<close>: \<open>self.el.find("defs/style", namespaces=self.namespaces)\<close>, the
  first \<open>style\<close> child of a \<open>defs\<close> child of the root, or \<open>None\<close>.
\<close>

definition style :: "(string \<times> string) list \<Rightarrow> element \<Rightarrow> path option" where
  "style ns root =
     (case concat (map (\<lambda>(i, d).
             if tag d = qualify ns ''defs''
             then map (\<lambda>(j, s). [i, j])
                    (filter (\<lambda>(j, s). tag s = qualify ns ''style'') (enumerate 0 (children d)))
             else []) (enumerate 0 (children root))) of
        [] \<Rightarrow> None
      | p # _ \<Rightarrow> Some p)"

definition set_text :: "string \<Rightarrow> element \<Rightarrow> element" where
  "set_text s e = Element (tag e) (attrib e) (Some s) (tail e) (children e)"

text \<open>
  \<^verbatim>\<open>
  def classify(self):
      for el in self.iter("path"):
          self.set_none(el, "class", StyleMap.classify(el.attrib.pop("style", "")))
      for el in self.iter("use"):
          self.set_none(el, "class", StyleMap.classify(el.attrib.pop("style", "")))
      for el in self.iter("[@id]"):
          if el.get("id").startswith("DejaVuSans"):
              self.set_none(el, "class", "text")
      for el in self.iter("text"):
          self.set_none(el, "class", StyleMap.classify(el.attrib.pop("style", "")))
          self.set_none(el, "class", "text")
      assert ilen(self.iter("[@style]")) == 0
      self.style.text = StyleMap.tostring()
  \<close>
  Assigning to \<open>self.style.text\<close> raises AttributeError when \<open>find\<close> returned \<open>None\<close>.
  The \<open>assert\<close> is executed, as it is unless Python runs with \<open>-O\<close>; the \<open>print\<close> of the
  third loop has no effect on the document.
\<close>

definition classify :: "svg \<Rightarrow> error + svg" where
  "classify self =
     (let ns = namespaces self in
      case for_each classify_style (iter_rec ns (Child ''path'') (el self)) (el self) of
        Inl err \<Rightarrow> Inl err
      | Inr r1 \<Rightarrow>
     (case for_each classify_style (iter_rec ns (Child ''use'') r1) r1 of
        Inl err \<Rightarrow> Inl err
      | Inr r2 \<Rightarrow>
     (case for_each classify_id (iter_rec ns (HasAttr ''id'') r2) r2 of
        Inl err \<Rightarrow> Inl err
      | Inr r3 \<Rightarrow>
     (case for_each classify_text (iter_rec ns (Child ''text'') r3) r3 of
        Inl err \<Rightarrow> Inl err
      | Inr r4 \<Rightarrow>
          if length (iter_rec ns (HasAttr ''style'') r4) \<noteq> 0 then Inl AssertionError
          else (case style ns r4 of
                  None \<Rightarrow> Inl AttributeError
                | Some p \<Rightarrow> Inr (self\<lparr>el := update_at (set_text StyleMap_tostring) p r4\<rparr>))))))"

section \<open>Terms of the specification of the traversal\<close>

text \<open>
  The positions of all elements of a tree in depth-first pre-order, the root first, and
  the traversal \<open>findAll\<close> as the specification words it: the descendants that match the
  tag name or the wildcard, in that order.
\<close>

function preorder :: "element \<Rightarrow> path list" where
  "preorder (Element t a tx ta cs) =
     [] # concat (map (\<lambda>(i, c). map ((#) i) (preorder c)) (enumerate 0 cs))"
  by pat_completeness auto
termination
proof (relation "measure size")
  show "wf (measure size)" by simp
next
  fix t a tx ta cs and x :: "nat \<times> element" and i :: nat and c :: element
  assume "x \<in> set (enumerate 0 cs)" and "(i, c) = x"
  then have "c \<in> set cs" by (auto simp: in_set_enumerate_eq)
  then have "size c < Suc (size_list size cs)"
    by (induction cs) auto
  then show "(c, Element t a tx ta cs) \<in> measure size"
    by simp
qed

definition matches :: "(string \<times> string) list \<Rightarrow> pattern \<Rightarrow> element \<Rightarrow> bool" where
  "matches ns pat e =
     (case pat of
        Star \<Rightarrow> True
      | Child t \<Rightarrow> tag e = qualify ns t
      | HasAttr k \<Rightarrow> el_get e k \<noteq> None)"

definition spec_findAll :: "(string \<times> string) list \<Rightarrow> pattern \<Rightarrow> element \<Rightarrow> path list" where
  "spec_findAll ns pat root =
     filter (\<lambda>p. p \<noteq> [] \<and> (case get_at root p of None \<Rightarrow> False | Some e \<Rightarrow> matches ns pat e))
       (preorder root)"

text \<open>
  The order that \<open>_iter\<close> has instead: the elements of the tree are visited in depth-first
  pre-order, the root first, and each visited element contributes its matching children,
  in document order.
\<close>

definition children_first :: "(string \<times> string) list \<Rightarrow> pattern \<Rightarrow> element \<Rightarrow> path list" where
  "children_first ns pat root =
     concat (map (\<lambda>q. case get_at root q of
                         None \<Rightarrow> []
                       | Some x \<Rightarrow>
                           map (\<lambda>i. q @ [i])
                             (filter (\<lambda>i. matches ns pat (children x ! i))
                                [0..<length (children x)]))
               (preorder root))"

text \<open>A function applied to the attribute dict of every element of a tree.\<close>

fun map_attrib ::
  "((string \<times> string) list \<Rightarrow> (string \<times> string) list) \<Rightarrow> element \<Rightarrow> element" where
  "map_attrib g (Element t a tx ta cs) = Element t (g a) tx ta (map (map_attrib g) cs)"

text \<open>
  What one loop of \<open>uid\<close> does to the attribute dict of an element that it visits: the
  value under the key, if there is one, is replaced by the rewritten value.
\<close>

definition uid_attrib :: "string \<Rightarrow> string \<Rightarrow> (string \<times> string) list \<Rightarrow> (string \<times> string) list" where
  "uid_attrib key ins a =
     (case map_of a key of None \<Rightarrow> a | Some v \<Rightarrow> AList.update key (insert_uid v ins) a)"

section \<open>Terms of the specification of slim\<close>

text \<open>
  The words of a string: its maximal runs of characters that are not whitespace, in order
  (Python's \<open>s.split()\<close>).
\<close>

fun words :: "string \<Rightarrow> string list" where
  "words [] = []"
| "words (c # s) =
     (if isspace c then words s
      else if s = [] \<or> isspace (hd s) then [c] # words s
      else (case words s of [] \<Rightarrow> [[c]] | w # ws \<Rightarrow> (c # w) # ws))"

text \<open>No whitespace at either end, and no two whitespace characters in a row.\<close>

definition no_space_ends :: "string \<Rightarrow> bool" where
  "no_space_ends v \<longleftrightarrow> v = [] \<or> \<not> isspace (hd v) \<and> \<not> isspace (last v)"

fun no_space_pair :: "string \<Rightarrow> bool" where
  "no_space_pair (c # d # s) \<longleftrightarrow> \<not> (isspace c \<and> isspace d) \<and> no_space_pair (d # s)"
| "no_space_pair _ \<longleftrightarrow> True"

text \<open>
  \<open>v'\<close> is a slimmed form of \<open>v\<close>: it is \<open>v\<close> with characters deleted, it has the words of
  \<open>v\<close>, no whitespace at its ends and no two whitespace characters in a row.
\<close>

definition slimmed_value :: "string \<Rightarrow> string \<Rightarrow> bool" where
  "slimmed_value v v' \<longleftrightarrow>
     subseq v' v \<and> words v' = words v \<and> no_space_ends v' \<and> no_space_pair v'"

text \<open>
  The maximal runs of a string, each of whitespace only or of other characters only, in
  order; and the string with its runs treated one by one: a whitespace run at the very
  start or at the very end is deleted, every other whitespace run is replaced by its last
  character, and every other run is kept.
\<close>

fun runs :: "string \<Rightarrow> string list" where
  "runs [] = []"
| "runs (c # s) =
     (case runs s of
        [] \<Rightarrow> [[c]]
      | r # rs \<Rightarrow> if isspace c = isspace (hd r) then (c # r) # rs else [c] # r # rs)"

fun keep_inner :: "string list \<Rightarrow> string" where
  "keep_inner [] = []"
| "keep_inner [r] = (if isspace (hd r) then [] else r)"
| "keep_inner (r # rs) = (if isspace (hd r) then [last r] else r) @ keep_inner rs"

definition collapse_runs :: "string \<Rightarrow> string" where
  "collapse_runs v =
     keep_inner (case runs v of [] \<Rightarrow> [] | r # rs \<Rightarrow> if isspace (hd r) then rs else r # rs)"

text \<open>
  The specification's wording of the pass, value by value: a text that is empty after
  trimming becomes absent, and a value becomes its words joined by single spaces.
\<close>

definition spec_slim_text :: "string option \<Rightarrow> string option" where
  "spec_slim_text tx =
     (case tx of None \<Rightarrow> None | Some s \<Rightarrow> if strip s = [] then None else Some (strip s))"

definition spec_slim_value :: "string \<Rightarrow> string" where
  "spec_slim_value v = py_join '' '' (words v)"

text \<open>
  A structural form of the scan away from the start of the string, used to reason about
  \<open>re_sub_slim\<close>: of two whitespace characters in a row the first goes, and so does a
  whitespace character that ends the string.
\<close>

fun squeeze :: "string \<Rightarrow> string" where
  "squeeze [] = []"
| "squeeze [c] = (if isspace c then [] else [c])"
| "squeeze (c # d # s) =
     (if isspace c \<and> isspace d then squeeze (d # s) else c # squeeze (d # s))"

section \<open>Facts about rpartition\<close>

lemma rpartition_not_found:
  "rpartition sep s = (b, [], a) \<Longrightarrow> b = []"
  by (induction s arbitrary: b a) (auto split: prod.splits if_splits)

lemma rpartition_append:
  "rpartition sep s = (b, f, a) \<Longrightarrow> b @ f @ a = s"
  by (induction s arbitrary: b f a)
     (auto split: prod.splits if_splits dest: rpartition_not_found)

lemma rpartition_found:
  "rpartition sep s = (b, f, a) \<Longrightarrow> f = [] \<or> f = [sep]"
  by (induction s arbitrary: b f a) (auto split: prod.splits if_splits)

lemma rpartition_after:
  "rpartition sep s = (b, f, a) \<Longrightarrow> sep \<notin> set a"
  by (induction s arbitrary: b f a) (auto split: prod.splits if_splits)

lemma rpartition_absent:
  "sep \<notin> set s \<Longrightarrow> rpartition sep s = ([], [], s)"
  by (induction s) auto

lemma rpartition_last:
  "sep \<notin> set a \<Longrightarrow> rpartition sep (b @ sep # a) = (b, [sep], a)"
  by (induction b) (auto simp: rpartition_absent)

lemma insert_uid_concat:
  "rpartition (CHR ''#'') (replace_char (CHR ''_'') (CHR ''-'') s) = (p, h, r) \<Longrightarrow>
   rpartition (CHR ''-'') r = (b, d, a) \<Longrightarrow>
   insert_uid s u = p @ h @ b @ d @ u @ ''-'' @ a"
  by (simp add: insert_uid_def join_nonempty_def)

lemma replace_char_notin:
  "c \<noteq> new \<Longrightarrow> c \<notin> set s \<Longrightarrow> c \<notin> set (replace_char old new s)"
  by (auto simp: replace_char_def)

lemma rpartition_before:
  "rpartition sep s = (b, f, a) \<Longrightarrow> b = [] \<or> f = [sep]"
  using rpartition_not_found rpartition_found by blast

lemma rpartition_snoc:
  "x \<noteq> sep \<Longrightarrow> rpartition sep s = (b, d, a) \<Longrightarrow> rpartition sep (s @ [x]) = (b, d, a @ [x])"
  by (induction s arbitrary: b d a) (auto split: prod.splits if_splits)

lemma insert_uid_decompose:
  "\<exists>p b a. replace_char (CHR ''_'') (CHR ''-'') s = p @ b @ a \<and>
     insert_uid s u = p @ b @ u @ ''-'' @ a \<and>
     CHR ''#'' \<notin> set b \<and> CHR ''#'' \<notin> set a \<and> CHR ''-'' \<notin> set a \<and>
     (p = [] \<or> last p = CHR ''#'') \<and> (b = [] \<or> last b = CHR ''-'')"
proof -
  obtain p h r where P: "rpartition (CHR ''#'') (replace_char (CHR ''_'') (CHR ''-'') s) = (p, h, r)"
    by (metis prod_cases3)
  obtain b d a where D: "rpartition (CHR ''-'') r = (b, d, a)"
    by (metis prod_cases3)
  have 1: "replace_char (CHR ''_'') (CHR ''-'') s = (p @ h) @ (b @ d) @ a"
    using rpartition_append [OF P] rpartition_append [OF D] by simp
  have 2: "insert_uid s u = (p @ h) @ (b @ d) @ u @ ''-'' @ a"
    using insert_uid_concat [OF P D] by simp
  have 3: "CHR ''#'' \<notin> set r" using rpartition_after [OF P] .
  have "set r = set b \<union> set d \<union> set a" using rpartition_append [OF D] by auto
  with 3 have 4: "CHR ''#'' \<notin> set (b @ d)" "CHR ''#'' \<notin> set a" by auto
  have 5: "CHR ''-'' \<notin> set a" using rpartition_after [OF D] .
  have 6: "p @ h = [] \<or> last (p @ h) = CHR ''#''"
    using rpartition_found [OF P] rpartition_before [OF P] by auto
  have 7: "b @ d = [] \<or> last (b @ d) = CHR ''-''"
    using rpartition_found [OF D] rpartition_before [OF D] by auto
  show ?thesis
    using 1 2 4 5 6 7 by blast
qed

section \<open>Claims about the uniquify rewrite\<close>

text \<open>
  C1, as stated: the rewrite is exactly "underscores to hyphens, keep the prefix up to the
  last \<open>#\<close>, split the remainder at its last hyphen, join before, unique id and after with
  hyphens, leaving out empty segments together with their separators". This fails when the
  remainder ends in a hyphen: the source appends the literal \<open>"-"\<close> after the unique id
  whether or not anything follows it, so \<open>insert("a-", "u")\<close> is \<open>"a-u-"\<close>, not \<open>"a-u"\<close>.
\<close>

theorem insert_uid_counterexample:
  "insert_uid ''a-'' ''u'' \<noteq> spec_insert ''a-'' ''u''"
  by (simp add: insert_uid_def spec_insert_def replace_char_def join_nonempty_def
      upto_last_def after_last_def)

text \<open>
  C1, amended: with underscores replaced by hyphens the identifier splits as
  \<open>p @ b @ a\<close>, where \<open>p\<close> is empty or ends in the last \<open>#\<close>, \<open>b\<close> is empty or ends in
  the last hyphen of the remainder and \<open>a\<close> holds neither character; the result is
  \<open>p @ b @ u @ "-" @ a\<close>. So the hyphen after the unique id is always written, and the one
  before it exactly when the remainder has a hyphen. The three examples of the
  specification hold.
\<close>

theorem insert_uid_structure:
  "(\<exists>p b a. replace_char (CHR ''_'') (CHR ''-'') s = p @ b @ a \<and>
     insert_uid s u = p @ b @ u @ ''-'' @ a \<and>
     CHR ''#'' \<notin> set b \<and> CHR ''#'' \<notin> set a \<and> CHR ''-'' \<notin> set a \<and>
     (p = [] \<or> last p = CHR ''#'') \<and> (b = [] \<or> last b = CHR ''-'')) \<and>
   insert_uid ''hello-world'' ''what1234'' = ''hello-what1234-world'' \<and>
   insert_uid ''#hey'' ''world123x'' = ''#world123x-hey'' \<and>
   insert_uid ''#a-b-c'' ''x0000000'' = ''#a-b-x0000000-c''"
proof -
  have "insert_uid ''hello-world'' ''what1234'' = ''hello-what1234-world''"
    by (simp add: insert_uid_def replace_char_def join_nonempty_def)
  moreover have "insert_uid ''#hey'' ''world123x'' = ''#world123x-hey''"
    by (simp add: insert_uid_def replace_char_def join_nonempty_def)
  moreover have "insert_uid ''#a-b-c'' ''x0000000'' = ''#a-b-x0000000-c''"
    by (simp add: insert_uid_def replace_char_def join_nonempty_def)
  ultimately show ?thesis using insert_uid_decompose [of s u] by blast
qed

text \<open>
  C4: the rewrite is injective in the unique id. For two distinct unique ids and an
  identifier holding at least one hyphen, the two rewritten identifiers differ.
\<close>

theorem insert_uid_injective:
  "u1 \<noteq> u2 \<Longrightarrow> CHR ''-'' \<in> set s \<Longrightarrow> insert_uid s u1 \<noteq> insert_uid s u2"
proof -
  assume ne: "u1 \<noteq> u2"
  obtain p h r where P: "rpartition (CHR ''#'') (replace_char (CHR ''_'') (CHR ''-'') s) = (p, h, r)"
    by (metis prod_cases3)
  obtain b d a where D: "rpartition (CHR ''-'') r = (b, d, a)"
    by (metis prod_cases3)
  show "insert_uid s u1 \<noteq> insert_uid s u2"
    using ne by (simp add: insert_uid_concat [OF P D])
qed

theorem insert_uid_injective_witness:
  "''x'' \<noteq> ''y'' \<and> CHR ''-'' \<in> set ''a-b'' \<and>
   insert_uid ''a-b'' ''x'' \<noteq> insert_uid ''a-b'' ''y''"
  using insert_uid_injective [of "''x''" "''y''" "''a-b''"] by simp

text \<open>
  C6: references stay consistent with the declarations they point to. For an identifier
  \<open>s\<close> without \<open>#\<close>, rewriting the fragment reference \<open>"#" + s\<close> gives \<open>"#"\<close> followed by
  the rewritten \<open>s\<close>, and rewriting \<open>"url(#" + s + ")"\<close> gives \<open>"url(#"\<close>, the rewritten
  \<open>s\<close> and \<open>")"\<close>.
\<close>

theorem insert_uid_references:
  "CHR ''#'' \<notin> set s \<Longrightarrow>
   insert_uid (''#'' @ s) u = ''#'' @ insert_uid s u \<and>
   insert_uid (''url(#'' @ s @ '')'') u = ''url(#'' @ insert_uid s u @ '')''"
proof -
  assume s: "CHR ''#'' \<notin> set s"
  let ?s1 = "replace_char (CHR ''_'') (CHR ''-'') s"
  have s1: "CHR ''#'' \<notin> set ?s1" using s by (simp add: replace_char_notin)
  obtain b d a where D: "rpartition (CHR ''-'') ?s1 = (b, d, a)"
    by (metis prod_cases3)
  have P0: "rpartition (CHR ''#'') ?s1 = ([], [], ?s1)"
    using s1 by (rule rpartition_absent)
  have I0: "insert_uid s u = b @ d @ u @ ''-'' @ a"
    using insert_uid_concat [OF P0 D] by simp
  have P1: "rpartition (CHR ''#'')
      (replace_char (CHR ''_'') (CHR ''-'') (''#'' @ s)) = ([], ''#'', ?s1)"
    using rpartition_last [OF s1, of "[]"] by (simp add: replace_char_def)
  have I1: "insert_uid (''#'' @ s) u = ''#'' @ b @ d @ u @ ''-'' @ a"
    using insert_uid_concat [OF P1 D] by simp
  have s2: "CHR ''#'' \<notin> set (?s1 @ '')'')" using s1 by simp
  have P2: "rpartition (CHR ''#'')
      (replace_char (CHR ''_'') (CHR ''-'') (''url(#'' @ s @ '')'')) =
      (''url('', ''#'', ?s1 @ '')'')"
    using rpartition_last [OF s2, of "''url(''"] by (simp add: replace_char_def)
  have D2: "rpartition (CHR ''-'') (?s1 @ '')'') = (b, d, a @ '')'')"
    using rpartition_snoc [OF _ D, of "CHR '')''"] by simp
  have I2: "insert_uid (''url(#'' @ s @ '')'') u = ''url(#'' @ b @ d @ u @ ''-'' @ a @ '')''"
    using insert_uid_concat [OF P2 D2] by simp
  show ?thesis using I0 I1 I2 by simp
qed

theorem insert_uid_references_witness:
  "CHR ''#'' \<notin> set ''clip_1'' \<and>
   insert_uid ''#clip_1'' ''u8'' = ''#clip-u8-1'' \<and>
   insert_uid ''url(#clip_1)'' ''u8'' = ''url(#clip-u8-1)''"
  using insert_uid_references [of "''clip_1''" "''u8''"]
  by (simp add: insert_uid_def replace_char_def join_nonempty_def)

section \<open>Facts about strip\<close>

lemma strip_prefix_hd:
  assumes "rev (dropWhile P (rev t)) \<noteq> []"
  shows "hd (rev (dropWhile P (rev t))) = hd t"
proof -
  have "rev t = takeWhile P (rev t) @ dropWhile P (rev t)" by simp
  then have "t = rev (dropWhile P (rev t)) @ rev (takeWhile P (rev t))"
    by (metis rev_append rev_rev_ident)
  then show ?thesis using assms by (metis hd_append2)
qed

lemma strip_prefix_nonempty: "rev (dropWhile P (rev t)) \<noteq> [] \<Longrightarrow> t \<noteq> []"
  by auto

lemma dropWhile_hd: "dropWhile P s = [] \<or> \<not> P (hd (dropWhile P s))"
  by (metis hd_dropWhile)

lemma strip_idem: "strip (strip s) = strip s"
proof -
  let ?t = "dropWhile isspace s"
  let ?u = "rev (dropWhile isspace (rev ?t))"
  have "?u = [] \<or> \<not> isspace (hd ?u)"
  proof (cases "?u = []")
    case True
    then show ?thesis by simp
  next
    case False
    then have "hd ?u = hd ?t" by (rule strip_prefix_hd)
    moreover have "?t \<noteq> []" using False by (rule strip_prefix_nonempty)
    ultimately show ?thesis using dropWhile_hd [of isspace s] by metis
  qed
  then have "dropWhile isspace ?u = ?u"
    by (simp only: dropWhile_eq_self_iff)
  then show ?thesis by (simp add: strip_def)
qed

section \<open>The scan of re_sub_slim in structural form\<close>

lemma squeeze_nonspace: "\<not> isspace c \<Longrightarrow> squeeze (c # s) = c # squeeze s"
  by (cases s) auto

lemma squeeze_run:
  "r \<noteq> [] \<Longrightarrow> \<forall>c\<in>set r. isspace c \<Longrightarrow> (t = [] \<or> \<not> isspace (hd t)) \<Longrightarrow>
   squeeze (r @ t) = (if t = [] then [] else last r # squeeze t)"
proof (induction r)
  case Nil
  then show ?case by simp
next
  case (Cons c r)
  show ?case
  proof (cases r)
    case Nil
    with Cons.prems show ?thesis by (cases t) auto
  next
    case (Cons d r')
    with Cons.prems Cons.IH show ?thesis by auto
  qed
qed

lemma re_sub_slim_False: "re_sub_slim False s = squeeze s"
proof (induction "False" s rule: re_sub_slim.induct)
  case (1 s)
  let ?r = "takeWhile isspace s" and ?t = "dropWhile isspace s"
  have split: "s = ?r @ ?t" by simp
  have t: "?t = [] \<or> \<not> isspace (hd ?t)" by (rule dropWhile_hd)
  have r: "\<forall>c\<in>set ?r. isspace c" by (auto dest: set_takeWhileD)
  show ?case
  proof (cases "s = []")
    case True
    then show ?thesis by (simp add: re_sub_slim.simps)
  next
    case ne: False
    show ?thesis
    proof (cases "?r = []")
      case True
      then have "\<not> isspace (hd s)" using ne by (cases s) (auto split: if_splits)
      then have "squeeze s = hd s # squeeze (tl s)"
        using ne squeeze_nonspace by (cases s) auto
      moreover have "re_sub_slim False s = hd s # re_sub_slim False (tl s)"
        using ne True by (subst re_sub_slim.simps) simp
      ultimately show ?thesis using "1.hyps"(1) [OF ne True] by simp
    next
      case rne: False
      have sq: "squeeze s = (if ?t = [] then [] else last ?r # squeeze ?t)"
        using squeeze_run [OF rne r t] by simp
      have hdlast: "length ?r < 2 \<Longrightarrow> hd s = last ?r"
        using rne by (cases s; cases "tl s") (auto split: if_splits)
      show ?thesis
      proof (cases "?t = []")
        case True
        then show ?thesis using ne rne sq by (subst re_sub_slim.simps) simp
      next
        case tne: False
        show ?thesis
        proof (cases "2 \<le> length ?r")
          case True
          have "re_sub_slim False s = last ?r # re_sub_slim False ?t"
            using ne rne tne True by (subst re_sub_slim.simps) simp
          then show ?thesis using "1.hyps"(3) [OF ne rne _ tne True] sq tne by simp
        next
          case False
          have "re_sub_slim False s = hd s # re_sub_slim False ?t"
            using ne rne tne False by (subst re_sub_slim.simps) simp
          then show ?thesis using "1.hyps"(4) [OF ne rne _ tne False] sq tne hdlast False by simp
        qed
      qed
    qed
  qed
qed

lemma re_sub_slim_True: "re_sub_slim True s = squeeze (dropWhile isspace s)"
proof (cases "s = []")
  case True
  then show ?thesis by (simp add: re_sub_slim.simps)
next
  case ne: False
  show ?thesis
  proof (cases "takeWhile isspace s = []")
    case True
    then have h: "\<not> isspace (hd s)" using ne by (cases s) (auto split: if_splits)
    then have "dropWhile isspace s = s" using ne by (cases s) auto
    moreover have "re_sub_slim True s = hd s # re_sub_slim False (tl s)"
      using ne True by (subst re_sub_slim.simps) simp
    moreover have "squeeze s = hd s # squeeze (tl s)"
      using ne h squeeze_nonspace by (cases s) auto
    ultimately show ?thesis by (simp add: re_sub_slim_False)
  next
    case False
    then have "re_sub_slim True s = re_sub_slim False (dropWhile isspace s)"
      using ne by (subst re_sub_slim.simps) simp
    then show ?thesis by (simp add: re_sub_slim_False)
  qed
qed

lemma squeeze_space_hd:
  "isspace d \<Longrightarrow> squeeze (d # s) = [] \<or> isspace (hd (squeeze (d # s)))"
  by (induction s arbitrary: d) auto

lemma squeeze_no_pair: "no_space_pair (squeeze s)"
proof (induction s rule: squeeze.induct)
  case (3 c d s)
  show ?case
  proof (cases "isspace c \<and> isspace d")
    case True
    with 3 show ?thesis by simp
  next
    case False
    show ?thesis
    proof (cases "squeeze (d # s)")
      case Nil
      with False show ?thesis by simp
    next
      case (Cons x xs)
      have "isspace c \<Longrightarrow> \<not> isspace x"
        using False Cons squeeze_nonspace [of d s] by auto
      with 3 False Cons show ?thesis by auto
    qed
  qed
qed simp_all

lemma squeeze_nonspace_ne: "\<not> isspace d \<Longrightarrow> (squeeze (d # s) = []) = False"
  by (simp add: squeeze_nonspace)

lemma squeeze_last: "squeeze s = [] \<or> \<not> isspace (last (squeeze s))"
  by (induction s rule: squeeze.induct) (auto simp: squeeze_nonspace_ne)

lemma squeeze_fixed:
  "no_space_pair s \<Longrightarrow> s = [] \<or> \<not> isspace (last s) \<Longrightarrow> squeeze s = s"
  by (induction s rule: squeeze.induct) auto

lemma squeeze_hd: "s \<noteq> [] \<Longrightarrow> \<not> isspace (hd s) \<Longrightarrow> squeeze s \<noteq> [] \<and> hd (squeeze s) = hd s"
  by (cases s) (auto simp: squeeze_nonspace)

lemma squeeze_subseq: "subseq (squeeze s) s"
  by (induction s rule: squeeze.induct) (auto intro: list_emb_Cons)

lemma dropWhile_subseq: "subseq (dropWhile P s) s"
  by (induction s) auto

lemma words_dropWhile: "words (dropWhile isspace s) = words s"
  by (induction s) auto

lemma words_squeeze: "words (squeeze s) = words s"
proof (induction s rule: squeeze.induct)
  case (3 c d s)
  show ?case
  proof (cases "isspace c")
    case True
    with 3 show ?thesis by auto
  next
    case c: False
    show ?thesis
    proof (cases "isspace d")
      case True
      have "squeeze (d # s) = [] \<or> isspace (hd (squeeze (d # s)))"
        using True by (rule squeeze_space_hd)
      then have "words (c # squeeze (d # s)) = [c] # words (squeeze (d # s))"
        using c by (cases "squeeze (d # s)") auto
      with 3 c True show ?thesis by simp
    next
      case False
      then have "squeeze (d # s) = d # squeeze s" by (rule squeeze_nonspace)
      with 3 c False show ?thesis by simp
    qed
  qed
qed simp_all

lemma re_sub_slim_slimmed: "slimmed_value v (re_sub_slim True v)"
proof -
  let ?t = "dropWhile isspace v"
  have t: "?t = [] \<or> \<not> isspace (hd ?t)" by (rule dropWhile_hd)
  have 1: "subseq (squeeze ?t) v"
    using squeeze_subseq [of ?t] dropWhile_subseq [of isspace v] subseq_order.order_trans
    by blast
  have 2: "words (squeeze ?t) = words v"
    by (simp only: words_squeeze words_dropWhile)
  have 3: "no_space_ends (squeeze ?t)"
  proof (cases "?t = []")
    case True
    then have "squeeze ?t = []" by (metis squeeze.simps(1))
    then show ?thesis unfolding no_space_ends_def by blast
  next
    case False
    with t have "\<not> isspace (hd ?t)" by blast
    with False have "hd (squeeze ?t) = hd ?t" using squeeze_hd by blast
    with \<open>\<not> isspace (hd ?t)\<close> squeeze_last [of ?t] show ?thesis
      by (auto simp only: no_space_ends_def)
  qed
  show ?thesis
    unfolding slimmed_value_def re_sub_slim_True
    using 1 2 3 squeeze_no_pair by blast
qed

lemma re_sub_slim_fixed:
  "no_space_ends v \<Longrightarrow> no_space_pair v \<Longrightarrow> re_sub_slim True v = v"
proof -
  assume e: "no_space_ends v" and p: "no_space_pair v"
  have "dropWhile isspace v = v"
    using e by (cases v) (auto simp: no_space_ends_def)
  moreover have "squeeze v = v"
    using e p by (intro squeeze_fixed) (auto simp: no_space_ends_def)
  ultimately show ?thesis by (simp add: re_sub_slim_True)
qed

lemma re_sub_slim_idem: "re_sub_slim True (re_sub_slim True v) = re_sub_slim True v"
  using re_sub_slim_slimmed [of v] by (simp add: slimmed_value_def re_sub_slim_fixed)

section \<open>Claims about slim\<close>

lemma slim_text_idem: "slim_text (slim_text e) = slim_text e"
  by (induction e) (auto simp: strip_idem split: option.splits)

lemma slim_attrib_idem: "slim_attrib (slim_attrib e) = slim_attrib e"
  by (induction e) (auto simp: re_sub_slim_idem)

lemma slim_text_attrib_commute: "slim_text (slim_attrib e) = slim_attrib (slim_text e)"
  by (induction e) auto

text \<open>
  C3: slimming is idempotent. Applying \<open>slim\<close> to an already slimmed document changes
  nothing: texts, tails and attribute values are those of the first application.
\<close>

theorem slim_idempotent: "slim (slim self) = slim self"
  by (simp add: slim_def slim_text_attrib_commute slim_text_idem slim_attrib_idem)

lemma get_at_slim_text: "get_at (slim_text e) p = map_option slim_text (get_at e p)"
proof (induction p arbitrary: e)
  case Nil
  show ?case by simp
next
  case (Cons i p)
  show ?case by (cases e) (simp add: Cons.IH)
qed

lemma get_at_slim_attrib: "get_at (slim_attrib e) p = map_option slim_attrib (get_at e p)"
proof (induction p arbitrary: e)
  case Nil
  show ?case by simp
next
  case (Cons i p)
  show ?case by (cases e) (simp add: Cons.IH)
qed

lemma slimmed_values:
  "list_all2 slimmed_value (map snd a) (map snd (map (\<lambda>(att, v). (att, re_sub_slim True v)) a))"
  by (induction a) (auto simp: re_sub_slim_slimmed)

lemma strip_no_space_ends: "no_space_ends (strip s)"
proof (cases "strip s = []")
  case True
  then show ?thesis by (simp add: no_space_ends_def)
next
  case False
  let ?t = "dropWhile isspace s"
  have ne: "rev (dropWhile isspace (rev ?t)) \<noteq> []" using False unfolding strip_def .
  then have "hd (strip s) = hd ?t" unfolding strip_def by (rule strip_prefix_hd)
  moreover have "?t \<noteq> []" using ne by (rule strip_prefix_nonempty)
  ultimately have h: "\<not> isspace (hd (strip s))" using dropWhile_hd [of isspace s] by metis
  have "last (strip s) = hd (dropWhile isspace (rev ?t))"
    using ne by (simp only: strip_def last_rev)
  then have "\<not> isspace (last (strip s))"
    using dropWhile_hd [of isspace "rev ?t"] ne by (metis rev_is_Nil_conv)
  with h show ?thesis by (simp only: no_space_ends_def) blast
qed

lemma runs_Cons: "\<exists>r rs. runs (c # s) = r # rs \<and> r \<noteq> [] \<and> hd r = c"
  by (cases "runs s") auto

lemma squeeze_runs: "squeeze s = keep_inner (runs s)"
proof (induction s rule: squeeze.induct)
  case 1
  show ?case by simp
next
  case (2 c)
  show ?case by simp
next
  case (3 c d s)
  obtain r rs where r: "runs (d # s) = r # rs" "r \<noteq> []" "hd r = d"
    using runs_Cons [of d s] by blast
  have "squeeze (d # s) = keep_inner (runs (d # s))"
    using 3 by (cases "isspace c \<and> isspace d") blast+
  then have IH: "squeeze (d # s) = keep_inner (r # rs)" by (simp only: r(1))
  have run: "runs (c # d # s) =
      (if isspace c = isspace d then (c # r) # rs else [c] # r # rs)"
    using r by simp
  show ?case
  proof (cases "isspace c = isspace d")
    case True
    then show ?thesis
      using IH run r by (cases rs) auto
  next
    case False
    then show ?thesis
      using IH run r by auto
  qed
qed

lemma runs_dropWhile:
  "runs (dropWhile isspace v) =
   (case runs v of [] \<Rightarrow> [] | r # rs \<Rightarrow> if isspace (hd r) then rs else r # rs)"
proof (induction v)
  case Nil
  show ?case by simp
next
  case (Cons c s)
  show ?case
  proof (cases "isspace c")
    case True
    then show ?thesis using Cons by (cases "runs s") (auto split: list.splits if_splits)
  next
    case False
    obtain r rs where r: "runs (c # s) = r # rs" "r \<noteq> []" "hd r = c"
      using runs_Cons [of c s] by blast
    have "dropWhile isspace (c # s) = c # s" using False by simp
    then show ?thesis using r False by (simp only:) simp
  qed
qed

lemma re_sub_slim_collapse: "re_sub_slim True v = collapse_runs v"
  by (simp only: re_sub_slim_True squeeze_runs runs_dropWhile collapse_runs_def)

lemma strip_between:
  "\<exists>l r. t = l @ strip t @ r \<and> list_all isspace l \<and> list_all isspace r"
proof -
  let ?d = "dropWhile isspace t"
  have 1: "t = takeWhile isspace t @ ?d" by simp
  have "rev ?d = takeWhile isspace (rev ?d) @ dropWhile isspace (rev ?d)" by simp
  then have "rev (rev ?d) = rev (takeWhile isspace (rev ?d) @ dropWhile isspace (rev ?d))"
    by (rule arg_cong)
  then have 2: "?d = strip t @ rev (takeWhile isspace (rev ?d))"
    by (simp only: rev_rev_ident rev_append strip_def)
  have 3: "list_all isspace (takeWhile isspace t)"
    by (auto simp: list_all_iff dest: set_takeWhileD)
  have 4: "list_all isspace (rev (takeWhile isspace (rev ?d)))"
    by (auto simp: list_all_iff dest: set_takeWhileD)
  have "t = takeWhile isspace t @ strip t @ rev (takeWhile isspace (rev ?d))"
    using 1 2 by metis
  then show ?thesis using 3 4 by blast
qed

lemma get_at_slim:
  "get_at (slim_attrib (slim_text r)) p = map_option (\<lambda>e. slim_attrib (slim_text e)) (get_at r p)"
  by (simp add: get_at_slim_attrib get_at_slim_text option.map_comp comp_def)

lemma collapsed_values:
  "map snd (map (\<lambda>(att, v). (att, re_sub_slim True v)) a) = map collapse_runs (map snd a)"
  by (induction a) (auto simp: re_sub_slim_collapse)

text \<open>
  C9, amended: slimming keeps the shape of the document. A position holds an element
  after the pass exactly when it held one before, and that element has the tag, the
  number of children and the attribute names it had. Its text is absent if the text was
  absent and the stripped text otherwise: the text without the whitespace at its two
  ends, so a text of whitespace only becomes the empty string, not an absent one. Its
  tail is absent. Every attribute value has its whitespace run at the start and at the
  end deleted and every other whitespace run replaced by the last character of that run
  (a tab for a run that ends in a tab); so it is the old value with characters deleted,
  with the same words, no whitespace at either end and no two whitespace characters in a
  row.
\<close>

theorem slim_effect:
  "namespaces (slim self) = namespaces self \<and> svg_id (slim self) = svg_id self \<and>
   (get_at (el (slim self)) p = None \<longleftrightarrow> get_at (el self) p = None) \<and>
   (\<forall>e. get_at (el self) p = Some e \<longrightarrow>
      (\<exists>e'. get_at (el (slim self)) p = Some e' \<and> tag e' = tag e \<and>
         length (children e') = length (children e) \<and>
         text_of e' = map_option strip (text_of e) \<and>
         (\<forall>t. text_of e = Some t \<longrightarrow>
            no_space_ends (strip t) \<and>
            (\<exists>l r. t = l @ strip t @ r \<and> list_all isspace l \<and> list_all isspace r)) \<and>
         tail e' = None \<and>
         map fst (attrib e') = map fst (attrib e) \<and>
         map snd (attrib e') = map collapse_runs (map snd (attrib e)) \<and>
         list_all2 slimmed_value (map snd (attrib e)) (map snd (attrib e'))))"
proof -
  have pos: "get_at (el (slim self)) p =
      map_option (\<lambda>e. slim_attrib (slim_text e)) (get_at (el self) p)"
    by (simp add: slim_def get_at_slim)
  have node: "\<And>e. \<exists>e'. e' = slim_attrib (slim_text e) \<and> tag e' = tag e \<and>
         length (children e') = length (children e) \<and>
         text_of e' = map_option strip (text_of e) \<and>
         (\<forall>t. text_of e = Some t \<longrightarrow>
            no_space_ends (strip t) \<and>
            (\<exists>l r. t = l @ strip t @ r \<and> list_all isspace l \<and> list_all isspace r)) \<and>
         tail e' = None \<and>
         map fst (attrib e') = map fst (attrib e) \<and>
         map snd (attrib e') = map collapse_runs (map snd (attrib e)) \<and>
         list_all2 slimmed_value (map snd (attrib e)) (map snd (attrib e'))"
  proof -
    fix e
    obtain t a tx ta cs where el: "e = Element t a tx ta cs" by (cases e)
    let ?e' = "slim_attrib (slim_text e)"
    have a: "attrib e = a" "attrib ?e' = map (\<lambda>(att, v). (att, re_sub_slim True v)) a"
      by (simp_all add: el)
    have 1: "list_all2 slimmed_value (map snd (attrib e)) (map snd (attrib ?e'))"
      using slimmed_values [of a] by (simp only: a)
    have 2: "map snd (attrib ?e') = map collapse_runs (map snd (attrib e))"
      using collapsed_values [of a] by (simp only: a)
    have 3: "map fst (attrib ?e') = map fst (attrib e)"
      by (auto simp: el)
    have 4: "text_of ?e' = map_option strip (text_of e)"
      by (simp add: el split: option.splits)
    have 5: "\<forall>t. text_of e = Some t \<longrightarrow>
            no_space_ends (strip t) \<and>
            (\<exists>l r. t = l @ strip t @ r \<and> list_all isspace l \<and> list_all isspace r)"
      using strip_no_space_ends strip_between by blast
    have 6: "tag ?e' = tag e" "length (children ?e') = length (children e)" "tail ?e' = None"
      by (simp_all add: el)
    show "\<exists>e'. e' = slim_attrib (slim_text e) \<and> tag e' = tag e \<and>
         length (children e') = length (children e) \<and>
         text_of e' = map_option strip (text_of e) \<and>
         (\<forall>t. text_of e = Some t \<longrightarrow>
            no_space_ends (strip t) \<and>
            (\<exists>l r. t = l @ strip t @ r \<and> list_all isspace l \<and> list_all isspace r)) \<and>
         tail e' = None \<and>
         map fst (attrib e') = map fst (attrib e) \<and>
         map snd (attrib e') = map collapse_runs (map snd (attrib e)) \<and>
         list_all2 slimmed_value (map snd (attrib e)) (map snd (attrib e'))"
      using 1 2 3 4 5 6 by blast
  qed
  have same: "namespaces (slim self) = namespaces self \<and> svg_id (slim self) = svg_id self"
    by (simp add: slim_def)
  have none: "get_at (el (slim self)) p = None \<longleftrightarrow> get_at (el self) p = None"
    by (simp add: pos)
  have some: "\<And>e. get_at (el self) p = Some e \<Longrightarrow>
      get_at (el (slim self)) p = Some (slim_attrib (slim_text e))"
    by (simp add: pos)
  show ?thesis using same none some node by metis
qed

text \<open>
  C9, as stated, fails on an element whose text is one space and whose attribute holds two
  tabs between two letters: the text becomes the empty string, where the specification has
  it absent, and one tab stays between the letters, where the specification has a space.
\<close>

theorem slim_counterexample:
  "text_of (el (slim \<lparr>el = Element ''g'' [(''d'', ''a'' @ [CHR 0x09, CHR 0x09] @ ''b'')]
                          (Some '' '') None [],
                   namespaces = [], svg_id = ''u''\<rparr>))
     \<noteq> spec_slim_text (Some '' '') \<and>
   map snd (attrib (el (slim \<lparr>el = Element ''g'' [(''d'', ''a'' @ [CHR 0x09, CHR 0x09] @ ''b'')]
                          (Some '' '') None [],
                   namespaces = [], svg_id = ''u''\<rparr>)))
     \<noteq> map spec_slim_value [''a'' @ [CHR 0x09, CHR 0x09] @ ''b'']"
  by (simp add: slim_def spec_slim_text_def spec_slim_value_def strip_def isspace_def
      re_sub_slim_True)

theorem slim_effect_witness:
  "get_at (el \<lparr>el = Element ''svg'' [] None None
        [Element ''path'' [(''d'', '' M 0  0 '')] (Some '' hi '') (Some '' '') []],
      namespaces = [], svg_id = ''u''\<rparr>) [0]
     = Some (Element ''path'' [(''d'', '' M 0  0 '')] (Some '' hi '') (Some '' '') []) \<and>
   get_at (el (slim \<lparr>el = Element ''svg'' [] None None
        [Element ''path'' [(''d'', '' M 0  0 '')] (Some '' hi '') (Some '' '') []],
      namespaces = [], svg_id = ''u''\<rparr>)) [0]
     = Some (Element ''path'' [(''d'', ''M 0 0'')] (Some ''hi'') None []) \<and>
   collapse_runs '' M 0  0 '' = ''M 0 0'' \<and> slimmed_value '' M 0  0 '' ''M 0 0''"
proof -
  have h: "get_at (el \<lparr>el = Element ''svg'' [] None None
        [Element ''path'' [(''d'', '' M 0  0 '')] (Some '' hi '') (Some '' '') []],
      namespaces = [], svg_id = ''u''\<rparr>) [0]
     = Some (Element ''path'' [(''d'', '' M 0  0 '')] (Some '' hi '') (Some '' '') [])"
    by simp
  have g: "get_at (el (slim \<lparr>el = Element ''svg'' [] None None
        [Element ''path'' [(''d'', '' M 0  0 '')] (Some '' hi '') (Some '' '') []],
      namespaces = [], svg_id = ''u''\<rparr>)) [0]
     = Some (Element ''path'' [(''d'', ''M 0 0'')] (Some ''hi'') None [])"
    by (simp add: slim_def strip_def isspace_def re_sub_slim_True)
  from slim_effect [of "\<lparr>el = Element ''svg'' [] None None
        [Element ''path'' [(''d'', '' M 0  0 '')] (Some '' hi '') (Some '' '') []],
      namespaces = [], svg_id = ''u''\<rparr>" "[0]"] h g
  show ?thesis by auto
qed

section \<open>Claims about set_none and StyleMap.classify\<close>

lemma split_on_ne: "split_on c s \<noteq> []"
  by (induction s) (auto split: list.splits)

lemma split_on_no_sep: "w \<in> set (split_on c s) \<Longrightarrow> c \<notin> set w"
  by (induction s arbitrary: w) (auto split: list.splits if_splits)

lemma split_on_absent: "c \<notin> set w \<Longrightarrow> split_on c w = [w]"
  by (induction w) auto

lemma split_on_append: "c \<notin> set w \<Longrightarrow> split_on c (w @ c # r) = w # split_on c r"
  by (induction w) auto

lemma split_join:
  "ws \<noteq> [] \<Longrightarrow> \<forall>w\<in>set ws. c \<notin> set w \<Longrightarrow> split_on c (py_join [c] ws) = ws"
  by (induction "[c]" ws rule: py_join.induct) (auto simp: split_on_absent split_on_append)

lemma py_join_nonempty:
  "ws \<noteq> [] \<Longrightarrow> \<forall>w\<in>set ws. w \<noteq> [] \<Longrightarrow> py_join sep ws \<noteq> []"
  by (induction sep ws rule: py_join.induct) auto

lemma el_get_el_set: "el_get (el_set k v e) k = Some v"
  by (simp add: el_get_def el_set_def update_conv')

text \<open>
  C10, amended: the tokens are the non-empty pieces, split at the space character, of the
  attribute's old value (the empty string when the attribute is absent) and of the new
  value. With no token the element is left as it is, whether or not it has the attribute.
  Otherwise the attribute is set, and the pieces of its new value are the tokens, sorted
  and without repetition.
\<close>

theorem set_none_merge:
  "let old = (case el_get e attr of None \<Rightarrow> [] | Some s \<Rightarrow> s);
       toks = filter (\<lambda>a. a \<noteq> []) (split_on (CHR '' '') old @ split_on (CHR '' '') v)
   in if toks = [] then set_none attr v e = e
      else (\<exists>nv. set_none attr v e = el_set attr nv e \<and>
              el_get (set_none attr v e) attr = Some nv \<and>
              sorted (split_on (CHR '' '') nv) \<and> distinct (split_on (CHR '' '') nv) \<and>
              set (split_on (CHR '' '') nv) = set toks)"
proof -
  define old where "old = (case el_get e attr of None \<Rightarrow> [] | Some s \<Rightarrow> s)"
  define attrs where "attrs = split_on (CHR '' '') old @ split_on (CHR '' '') v"
  define toks where "toks = filter (\<lambda>a. a \<noteq> []) attrs"
  define L where "L = filter (\<lambda>a. a \<noteq> []) (sort (remdups attrs))"
  define nv where "nv = py_join '' '' L"
  have sn: "set_none attr v e = (if nv \<noteq> [] then el_set attr nv e else e)"
    by (simp add: set_none_def nv_def L_def attrs_def old_def Let_def)
  have setL: "set L = set toks" by (auto simp: L_def toks_def)
  have sortedL: "sorted L" by (simp add: L_def sorted_wrt_filter)
  have distinctL: "distinct L" by (simp add: L_def)
  have nosep: "\<forall>w\<in>set L. CHR '' '' \<notin> set w"
    by (auto simp: L_def attrs_def dest: split_on_no_sep)
  have nonempty: "\<forall>w\<in>set L. w \<noteq> []" by (auto simp: L_def)
  have main: "if toks = [] then set_none attr v e = e
      else (\<exists>nv. set_none attr v e = el_set attr nv e \<and>
              el_get (set_none attr v e) attr = Some nv \<and>
              sorted (split_on (CHR '' '') nv) \<and> distinct (split_on (CHR '' '') nv) \<and>
              set (split_on (CHR '' '') nv) = set toks)"
  proof (cases "toks = []")
    case True
    then have "L = []" using setL by simp
    then have "nv = []" by (simp add: nv_def)
    with True show ?thesis by (simp add: sn)
  next
    case False
    then have Lne: "L \<noteq> []" using setL by auto
    then have nvne: "nv \<noteq> []" using nonempty by (simp add: nv_def py_join_nonempty)
    have sp: "split_on (CHR '' '') nv = L"
      using split_join [OF Lne nosep] by (simp add: nv_def)
    have "set_none attr v e = el_set attr nv e" using nvne sn by simp
    moreover have "el_get (set_none attr v e) attr = Some nv"
      using nvne sn by (simp add: el_get_el_set)
    ultimately have "\<exists>nv. set_none attr v e = el_set attr nv e \<and>
              el_get (set_none attr v e) attr = Some nv \<and>
              sorted (split_on (CHR '' '') nv) \<and> distinct (split_on (CHR '' '') nv) \<and>
              set (split_on (CHR '' '') nv) = set toks"
      using sp sortedL distinctL setL by auto
    with False show ?thesis by simp
  qed
  from main show ?thesis by (simp only: Let_def toks_def attrs_def old_def)
qed

text \<open>
  C10, as stated, fails on an element whose attribute is already there with an empty
  value: no token results, nothing is set, and the element keeps the attribute.
\<close>

theorem set_none_counterexample:
  "filter (\<lambda>a. a \<noteq> []) (split_on (CHR '' '') [] @ split_on (CHR '' '') []) = [] \<and>
   el_get (set_none ''class'' [] (Element ''path'' [(''class'', [])] None None [])) ''class''
     \<noteq> None"
  by (simp add: set_none_def el_get_def el_set_def)

theorem set_none_merge_witness:
  "set_none ''class'' '''' (Element ''g'' [] None None []) = Element ''g'' [] None None [] \<and>
   el_get (set_none ''class'' ''b a  a'' (Element ''p'' [(''class'', ''z b'')] None None []))
     ''class'' = Some ''a b z''"
  using set_none_merge [of "Element ''g'' [] None None []" "''class''" "''''"]
    set_none_merge [of "Element ''p'' [(''class'', ''z b'')] None None []" "''class''" "''b a  a''"]
  by (simp add: set_none_def el_get_def el_set_def)

text \<open>
  C7, as stated, fails: the classes of the global defaults are always part of the result,
  so the class list of the empty style is not empty.
\<close>

theorem classify_empty_counterexample: "StyleMap_classify [] \<noteq> Inr []"
  by (simp add: StyleMap_classify_def global_defaults_def lookup_class_def attributes_def
      stroke_line_cap_def stroke_line_join_def parse_def)

text \<open>
  C7, amended: for the empty style string the parse step yields no declaration, and
  \<open>StyleMap.classify\<close> returns the classes of the two global defaults, \<open>butt rounded\<close>.
\<close>

theorem classify_empty:
  "parse [] = [] \<and> StyleMap_classify [] = Inr ''butt rounded''"
  by (simp add: StyleMap_classify_def global_defaults_def lookup_class_def attributes_def
      stroke_line_cap_def stroke_line_join_def parse_def)

section \<open>Claims about SVG.iter\<close>

lemma in_enumerate_paths_from:
  "p \<in> set (concat (map (\<lambda>(i, c). map ((#) i) (f c)) (enumerate n cs))) \<Longrightarrow> n \<le> hd p"
  by (auto simp: in_set_enumerate_eq)

lemma in_enumerate_paths:
  "p \<in> set (concat (map (\<lambda>(i, c). map ((#) i) (f c)) (enumerate 0 cs))) \<longleftrightarrow>
   (\<exists>i q. p = i # q \<and> i < length cs \<and> q \<in> set (f (cs ! i)))"
proof
  assume "p \<in> set (concat (map (\<lambda>(i, c). map ((#) i) (f c)) (enumerate 0 cs)))"
  then obtain i c where "(i, c) \<in> set (enumerate 0 cs)" and "p \<in> set (map ((#) i) (f c))"
    by auto
  then show "\<exists>i q. p = i # q \<and> i < length cs \<and> q \<in> set (f (cs ! i))"
    by (auto simp: in_set_enumerate_eq)
next
  assume "\<exists>i q. p = i # q \<and> i < length cs \<and> q \<in> set (f (cs ! i))"
  then obtain i q where p: "p = i # q" and i: "i < length cs" and q: "q \<in> set (f (cs ! i))"
    by blast
  have "(i, cs ! i) \<in> set (enumerate 0 cs)" using i by (simp add: in_set_enumerate_eq)
  moreover have "p \<in> set (map ((#) i) (f (cs ! i)))" using p q by simp
  ultimately show "p \<in> set (concat (map (\<lambda>(i, c). map ((#) i) (f c)) (enumerate 0 cs)))"
    by force
qed

lemma in_enumerate_singletons:
  "p \<in> set (map (\<lambda>(i, c). [i]) (filter P (enumerate 0 cs))) \<longleftrightarrow>
   (\<exists>i. p = [i] \<and> i < length cs \<and> P (i, cs ! i))"
proof
  assume "p \<in> set (map (\<lambda>(i, c). [i]) (filter P (enumerate 0 cs)))"
  then obtain i c where "(i, c) \<in> set (enumerate 0 cs)" and "P (i, c)" and "p = [i]"
    by auto
  then show "\<exists>i. p = [i] \<and> i < length cs \<and> P (i, cs ! i)"
    by (auto simp: in_set_enumerate_eq)
next
  assume "\<exists>i. p = [i] \<and> i < length cs \<and> P (i, cs ! i)"
  then obtain i where p: "p = [i]" and i: "i < length cs" and P: "P (i, cs ! i)"
    by blast
  have "(i, cs ! i) \<in> set (filter P (enumerate 0 cs))"
    using i P by (simp add: in_set_enumerate_eq)
  then show "p \<in> set (map (\<lambda>(i, c). [i]) (filter P (enumerate 0 cs)))"
    using p by force
qed

lemma distinct_enumerate_paths:
  "\<forall>c\<in>set cs. distinct (f c) \<Longrightarrow>
   distinct (concat (map (\<lambda>(i, c). map ((#) i) (f c)) (enumerate n cs)))"
proof (induction cs arbitrary: n)
  case Nil
  show ?case by simp
next
  case (Cons c cs)
  have "distinct (map ((#) n) (f c))" using Cons.prems by (simp add: distinct_map)
  moreover have "distinct (concat (map (\<lambda>(i, c). map ((#) i) (f c)) (enumerate (Suc n) cs)))"
    using Cons by simp
  moreover have "set (map ((#) n) (f c)) \<inter>
      set (concat (map (\<lambda>(i, c). map ((#) i) (f c)) (enumerate (Suc n) cs))) = {}"
    using in_enumerate_paths_from [of _ f "Suc n" cs] by fastforce
  ultimately show ?case by simp
qed

lemma in_iterfind:
  "\<forall>k. pat \<noteq> HasAttr k \<Longrightarrow>
   p \<in> set (iterfind ns pat e) \<longleftrightarrow>
   (\<exists>i. p = [i] \<and> i < length (children e) \<and> matches ns pat (children e ! i))"
proof (cases pat)
  case Star
  have "iterfind ns pat e = map (\<lambda>(i, c). [i]) (filter (\<lambda>x. True) (enumerate 0 (children e)))"
    by (simp add: Star iterfind_def)
  then show ?thesis
    by (simp only: in_enumerate_singletons) (simp add: Star matches_def)
next
  case (Child t)
  have "iterfind ns pat e = map (\<lambda>(i, c). [i])
      (filter (\<lambda>(i, c). tag c = qualify ns t) (enumerate 0 (children e)))"
    by (simp add: Child iterfind_def)
  then show ?thesis
    by (simp only: in_enumerate_singletons) (simp add: Child matches_def)
next
  case (HasAttr k)
  assume "\<forall>k. pat \<noteq> HasAttr k"
  with HasAttr show ?thesis by simp
qed

lemma distinct_singletons:
  "distinct (map fst xs) \<Longrightarrow> distinct (map (\<lambda>(i, c). [i]) (filter P xs))"
  by (induction xs) (auto simp: image_iff)

lemma distinct_iterfind: "distinct (iterfind ns pat e)"
proof (cases pat)
  case Star
  have "iterfind ns pat e = map (\<lambda>(i, c). [i]) (filter (\<lambda>x. True) (enumerate 0 (children e)))"
    by (simp add: Star iterfind_def)
  then show ?thesis by (simp only: distinct_singletons map_fst_enumerate distinct_upt)
next
  case (Child t)
  then show ?thesis by (simp add: iterfind_def distinct_singletons)
next
  case (HasAttr k)
  then show ?thesis by (simp add: iterfind_def)
qed

lemma in_iter_rec_Element:
  "p \<in> set (iter_rec ns pat (Element t a tx ta cs)) \<longleftrightarrow>
   p \<in> set (iterfind ns pat (Element t a tx ta cs)) \<or>
   (\<exists>i q. p = i # q \<and> i < length cs \<and> q \<in> set (iter_rec ns pat (cs ! i)))"
  by (simp only: iter_rec.simps set_append Un_iff in_enumerate_paths)

lemma in_preorder_Element:
  "p \<in> set (preorder (Element t a tx ta cs)) \<longleftrightarrow>
   p = [] \<or> (\<exists>i q. p = i # q \<and> i < length cs \<and> q \<in> set (preorder (cs ! i)))"
  by (simp only: preorder.simps list.set insert_iff in_enumerate_paths)

lemma in_iter_rec:
  "\<forall>k. pat \<noteq> HasAttr k \<Longrightarrow>
   p \<in> set (iter_rec ns pat e) \<longleftrightarrow>
   p \<noteq> [] \<and> (\<exists>x. get_at e p = Some x \<and> matches ns pat x)"
proof (induction e arbitrary: p)
  case (Element t a tx ta cs)
  have IH: "\<And>i q. i < length cs \<Longrightarrow>
      q \<in> set (iter_rec ns pat (cs ! i)) \<longleftrightarrow>
      q \<noteq> [] \<and> (\<exists>x. get_at (cs ! i) q = Some x \<and> matches ns pat x)"
    using Element by simp
  show ?case
  proof (cases p)
    case Nil
    then show ?thesis
      using Element.prems by (auto simp: in_iterfind in_iter_rec_Element simp del: iter_rec.simps)
  next
    case (Cons i q)
    show ?thesis
    proof (cases "i < length cs")
      case False
      then show ?thesis
        using Element.prems Cons by (auto simp: in_iterfind in_iter_rec_Element simp del: iter_rec.simps)
    next
      case True
      show ?thesis
      proof (cases "q = []")
        case True
        then show ?thesis
          using Element.prems Cons \<open>i < length cs\<close> IH [of i "[]"]
          by (auto simp: in_iterfind in_iter_rec_Element simp del: iter_rec.simps)
      next
        case False
        then show ?thesis
          using Element.prems Cons \<open>i < length cs\<close> IH [of i q]
          by (auto simp: in_iterfind in_iter_rec_Element simp del: iter_rec.simps)
      qed
    qed
  qed
qed

lemma distinct_iter_rec:
  "\<forall>k. pat \<noteq> HasAttr k \<Longrightarrow> distinct (iter_rec ns pat e)"
proof (induction e)
  case (Element t a tx ta cs)
  have 1: "distinct (concat (map (\<lambda>(i, c). map ((#) i) (iter_rec ns pat c)) (enumerate 0 cs)))"
    using Element by (intro distinct_enumerate_paths) simp
  have 2: "set (iterfind ns pat (Element t a tx ta cs)) \<inter>
       set (concat (map (\<lambda>(i, c). map ((#) i) (iter_rec ns pat c)) (enumerate 0 cs))) = {}"
  proof -
    have "\<And>p. p \<in> set (iterfind ns pat (Element t a tx ta cs)) \<Longrightarrow>
        p \<notin> set (concat (map (\<lambda>(i, c). map ((#) i) (iter_rec ns pat c)) (enumerate 0 cs)))"
      using Element.prems
      by (simp only: in_enumerate_paths) (auto simp: in_iterfind in_iter_rec)
    then show ?thesis by blast
  qed
  show ?case using 1 2 by (simp add: distinct_iterfind)
qed

lemma in_preorder: "p \<in> set (preorder e) \<longleftrightarrow> get_at e p \<noteq> None"
proof (induction e arbitrary: p)
  case (Element t a tx ta cs)
  have IH: "\<And>i q. i < length cs \<Longrightarrow>
      q \<in> set (preorder (cs ! i)) \<longleftrightarrow> get_at (cs ! i) q \<noteq> None"
    using Element by simp
  show ?case
  proof (cases p)
    case Nil
    then show ?thesis by simp
  next
    case (Cons i q)
    then show ?thesis using IH [of i q]
      by (cases "i < length cs") (auto simp: in_preorder_Element simp del: preorder.simps)
  qed
qed

lemma distinct_preorder: "distinct (preorder e)"
proof (induction e)
  case (Element t a tx ta cs)
  have "distinct (concat (map (\<lambda>(i, c). map ((#) i) (preorder c)) (enumerate 0 cs)))"
    using Element by (intro distinct_enumerate_paths) simp
  moreover have "[] \<notin> set (concat (map (\<lambda>(i, c). map ((#) i) (preorder c)) (enumerate 0 cs)))"
    by (simp only: in_enumerate_paths) simp
  ultimately show ?case by simp
qed

lemma map_append_Nil: "map ((@) []) ps = ps"
  by (induction ps) auto

lemma enumerate_filter_fst:
  "map fst (filter (\<lambda>(i, c). P c) (enumerate 0 cs)) = filter (\<lambda>i. P (cs ! i)) [0..<length cs]"
proof (induction cs rule: rev_induct)
  case Nil
  show ?case by simp
next
  case (snoc c cs)
  have "filter (\<lambda>i. P ((cs @ [c]) ! i)) [0..<length cs] = filter (\<lambda>i. P (cs ! i)) [0..<length cs]"
    by (rule filter_cong) (auto simp: nth_append)
  then show ?case using snoc by (simp add: enumerate_append_eq)
qed

lemma iterfind_as_filter:
  assumes "\<forall>k. pat \<noteq> HasAttr k"
  shows "iterfind ns pat x =
     map (\<lambda>i. [i]) (filter (\<lambda>i. matches ns pat (children x ! i)) [0..<length (children x)])"
proof -
  let ?P = "\<lambda>c. matches ns pat c"
  have "iterfind ns pat x = map (\<lambda>(i, c). [i]) (filter (\<lambda>(i, c). ?P c) (enumerate 0 (children x)))"
    using assms by (cases pat) (simp_all add: iterfind_def matches_def)
  also have "\<dots> = map (\<lambda>i. [i]) (map fst (filter (\<lambda>(i, c). ?P c) (enumerate 0 (children x))))"
    by (simp add: case_prod_beta comp_def)
  also have "\<dots> = map (\<lambda>i. [i]) (filter (\<lambda>i. ?P (children x ! i)) [0..<length (children x)])"
    using enumerate_filter_fst [of ?P "children x"] by simp
  finally show ?thesis .
qed

lemma concat_map_concat:
  "concat (map f (concat xss)) = concat (map (\<lambda>xs. concat (map f xs)) xss)"
  by (induction xss) auto

lemma iter_rec_by_parent:
  "iter_rec ns pat e =
   concat (map (\<lambda>q. case get_at e q of None \<Rightarrow> [] | Some x \<Rightarrow> map ((@) q) (iterfind ns pat x))
             (preorder e))"
proof (induction e)
  case (Element t a tx ta cs)
  let ?e = "Element t a tx ta cs"
  let ?F = "\<lambda>r q. case get_at r q of None \<Rightarrow> [] | Some x \<Rightarrow> map ((@) q) (iterfind ns pat x)"
  have child: "\<And>i c. (i, c) \<in> set (enumerate 0 cs) \<Longrightarrow>
      concat (map (?F ?e) (map ((#) i) (preorder c))) = map ((#) i) (iter_rec ns pat c)"
  proof -
    fix i c assume "(i, c) \<in> set (enumerate 0 cs)"
    then have i: "i < length cs" and c: "cs ! i = c" by (auto simp: in_set_enumerate_eq)
    then have cin: "c \<in> set cs" by auto
    have "\<And>q. ?F ?e (i # q) = map ((#) i) (?F c q)"
      using i c by (auto split: option.splits)
    then have "concat (map (?F ?e) (map ((#) i) (preorder c))) =
        concat (map (\<lambda>q. map ((#) i) (?F c q)) (preorder c))"
      by (simp add: comp_def)
    also have "\<dots> = map ((#) i) (concat (map (?F c) (preorder c)))"
      by (simp add: map_concat comp_def)
    also have "\<dots> = map ((#) i) (iter_rec ns pat c)"
      using Element.IH [OF cin] by simp
    finally show "concat (map (?F ?e) (map ((#) i) (preorder c))) = map ((#) i) (iter_rec ns pat c)" .
  qed
  have nil: "\<And>ps :: path list. map ((@) []) ps = ps"
    by (rule map_append_Nil)
  have "concat (map (?F ?e) (preorder ?e)) =
      iterfind ns pat ?e @
      concat (map (\<lambda>xs. concat (map (?F ?e) xs))
        (map (\<lambda>(i, c). map ((#) i) (preorder c)) (enumerate 0 cs)))"
    by (simp add: concat_map_concat nil)
  also have "map (\<lambda>xs. concat (map (?F ?e) xs))
        (map (\<lambda>(i, c). map ((#) i) (preorder c)) (enumerate 0 cs)) =
      map (\<lambda>(i, c). map ((#) i) (iter_rec ns pat c)) (enumerate 0 cs)"
    using child by (auto simp: comp_def)
  finally show ?case by simp
qed

lemma iter_rec_children_first:
  assumes "\<forall>k. pat \<noteq> HasAttr k"
  shows "iter_rec ns pat e = children_first ns pat e"
proof -
  have "\<And>q x. map ((@) q) (iterfind ns pat x) =
      map (\<lambda>i. q @ [i]) (filter (\<lambda>i. matches ns pat (children x ! i)) [0..<length (children x)])"
    by (simp add: iterfind_as_filter [OF assms] comp_def)
  then show ?thesis
    by (simp only: iter_rec_by_parent [of ns pat e] children_first_def)
qed

text \<open>
  C8, amended: for the wildcard and for every tag name, \<open>SVG.iter\<close> yields every matching
  descendant of the root exactly once: no position is yielded twice, and the positions
  yielded are those of the pre-order traversal of the specification. The order is this:
  the elements of the tree are visited in depth-first pre-order, the root first, and each
  visited element contributes its matching children, in document order.
\<close>

theorem iter_exactly_once:
  "\<forall>k. pat \<noteq> HasAttr k \<Longrightarrow>
   iter_svg self pat = children_first (namespaces self) pat (el self) \<and>
   distinct (iter_svg self pat) \<and>
   distinct (spec_findAll (namespaces self) pat (el self)) \<and>
   set (iter_svg self pat) = set (spec_findAll (namespaces self) pat (el self))"
proof -
  assume pat: "\<forall>k. pat \<noteq> HasAttr k"
  have 1: "set (iter_svg self pat) = set (spec_findAll (namespaces self) pat (el self))"
    using pat by (auto simp: iter_svg_def spec_findAll_def in_iter_rec in_preorder)
  have 2: "iter_svg self pat = children_first (namespaces self) pat (el self)"
    using pat by (simp add: iter_svg_def iter_rec_children_first)
  have 3: "distinct (iter_svg self pat)"
    using pat by (simp add: iter_svg_def distinct_iter_rec)
  have 4: "distinct (spec_findAll (namespaces self) pat (el self))"
    by (simp add: spec_findAll_def distinct_preorder)
  show ?thesis using 1 2 3 4 by blast
qed

text \<open>
  C8, as stated, fails on a root with the children \<open>a\<close> and \<open>b\<close> where \<open>a\<close> has a child
  \<open>c\<close>: \<open>_iter\<close> yields the matching children of a node before it descends, so the
  wildcard gives \<open>a\<close>, \<open>b\<close>, \<open>c\<close>, where depth-first pre-order is \<open>a\<close>, \<open>c\<close>, \<open>b\<close>.
\<close>

theorem iter_counterexample:
  "iter_svg \<lparr>el = Element ''r'' [] None None
        [Element ''a'' [] None None [Element ''c'' [] None None []],
         Element ''b'' [] None None []],
      namespaces = [], svg_id = ''u''\<rparr> Star = [[0], [1], [0, 0]] \<and>
   spec_findAll [] Star (Element ''r'' [] None None
        [Element ''a'' [] None None [Element ''c'' [] None None []],
         Element ''b'' [] None None []]) = [[0], [0, 0], [1]]"
  by (simp add: iter_svg_def iterfind_def spec_findAll_def matches_def)

theorem iter_exactly_once_witness:
  "(\<forall>k. Star \<noteq> HasAttr k) \<and>
   children_first [] Star (Element ''r'' [] None None
        [Element ''a'' [] None None [Element ''c'' [] None None []],
         Element ''b'' [] None None []]) = [[0], [1], [0, 0]] \<and>
   iter_svg \<lparr>el = Element ''r'' [] None None
        [Element ''a'' [] None None [Element ''c'' [] None None []],
         Element ''b'' [] None None []],
      namespaces = [], svg_id = ''u''\<rparr> Star = [[0], [1], [0, 0]]"
proof -
  have c: "children_first [] Star (Element ''r'' [] None None
        [Element ''a'' [] None None [Element ''c'' [] None None []],
         Element ''b'' [] None None []]) = [[0], [1], [0, 0]]"
    by (simp add: children_first_def matches_def upt_rec)
  from iter_exactly_once [of Star "\<lparr>el = Element ''r'' [] None None
        [Element ''a'' [] None None [Element ''c'' [] None None []],
         Element ''b'' [] None None []],
      namespaces = [], svg_id = ''u''\<rparr>"] c
  show ?thesis by simp
qed

section \<open>Claims about SVG.uid\<close>

lemma for_each_append:
  "for_each body (xs @ ys) r =
   (case for_each body xs r of Inl err \<Rightarrow> Inl err | Inr r' \<Rightarrow> for_each body ys r')"
  by (induction xs arbitrary: r) (auto split: option.splits sum.splits)

lemma for_each_lift:
  "i < length cs \<Longrightarrow>
   for_each body (map ((#) i) ps) (Element t a tx ta cs) =
   (case for_each body ps (cs ! i) of
      Inl err \<Rightarrow> Inl err
    | Inr c' \<Rightarrow> Inr (Element t a tx ta (cs[i := c'])))"
proof (induction ps arbitrary: cs)
  case Nil
  then show ?case by simp
next
  case (Cons p ps)
  show ?case
  proof (cases "get_at (cs ! i) p")
    case None
    then show ?thesis using Cons by simp
  next
    case (Some e)
    show ?thesis
    proof (cases "body e")
      case (Inl err)
      then show ?thesis using Some Cons.prems by simp
    next
      case (Inr e')
      let ?cs = "cs[i := update_at (\<lambda>_. e') p (cs ! i)]"
      have "i < length ?cs" using Cons.prems by simp
      from Cons.IH [OF this] show ?thesis
        using Some Inr Cons.prems by (simp split: sum.splits)
    qed
  qed
qed

lemma for_each_children:
  "\<forall>c\<in>set cs. for_each body (P c) c = Inr (F c) \<Longrightarrow>
   for_each body (concat (map (\<lambda>(i, c). map ((#) i) (P c)) (enumerate (length ds) cs)))
     (Element t a tx ta (ds @ cs)) =
   Inr (Element t a tx ta (ds @ map F cs))"
proof (induction cs arbitrary: ds)
  case Nil
  show ?case by simp
next
  case (Cons c cs)
  have 1: "for_each body (map ((#) (length ds)) (P c)) (Element t a tx ta (ds @ c # cs)) =
      Inr (Element t a tx ta ((ds @ [F c]) @ cs))"
    using Cons.prems by (simp add: for_each_lift)
  have 2: "for_each body
      (concat (map (\<lambda>(i, c). map ((#) i) (P c)) (enumerate (length (ds @ [F c])) cs)))
      (Element t a tx ta ((ds @ [F c]) @ cs)) =
      Inr (Element t a tx ta ((ds @ [F c]) @ map F cs))"
    using Cons.prems by (intro Cons.IH) simp
  show ?case using 1 2 by (simp add: for_each_append)
qed

lemma uid_loop_eq:
  "for_each (uid_body k u) (iter_rec ns (HasAttr k) r) r = Inr (map_attrib (uid_attrib k u) r)"
proof (induction r)
  case (Element t a tx ta cs)
  let ?rest = "concat (map (\<lambda>(i, c). map ((#) i) (iter_rec ns (HasAttr k) c)) (enumerate 0 cs))"
  have rest: "\<And>a'. for_each (uid_body k u) ?rest (Element t a' tx ta cs) =
      Inr (Element t a' tx ta (map (map_attrib (uid_attrib k u)) cs))"
    using for_each_children [of cs "uid_body k u" "iter_rec ns (HasAttr k)"
        "map_attrib (uid_attrib k u)" "[]"] Element
    by simp
  show ?case
  proof (cases "map_of a k")
    case None
    then have "uid_attrib k u a = a" by (simp add: uid_attrib_def)
    then show ?thesis
      using None rest [of a] by (simp add: iterfind_def el_get_def)
  next
    case (Some v)
    then have "uid_attrib k u a = AList.update k (insert_uid v u) a"
      by (simp add: uid_attrib_def)
    moreover have "uid_body k u (Element t a tx ta cs) =
        Inr (Element t (AList.update k (insert_uid v u) a) tx ta cs)"
      using Some by (simp add: uid_body_def el_get_def el_set_def)
    ultimately show ?thesis
      using Some rest [of "AList.update k (insert_uid v u) a"]
      by (simp add: iterfind_def el_get_def)
  qed
qed

lemma get_at_map_attrib: "get_at (map_attrib g r) p = map_option (map_attrib g) (get_at r p)"
proof (induction p arbitrary: r)
  case Nil
  show ?case by simp
next
  case (Cons i p)
  show ?case by (cases r) (simp add: Cons.IH)
qed

lemma el_get_map_attrib: "el_get (map_attrib g e) k = map_of (g (attrib e)) k"
  by (cases e) (simp add: el_get_def)

lemma map_of_uid_attrib:
  "map_of (uid_attrib k u a) k' =
   (if k' = k then map_option (\<lambda>v. insert_uid v u) (map_of a k) else map_of a k')"
  by (auto simp: uid_attrib_def update_conv' split: option.splits)

lemma uid_eq:
  "uid self = Inr (self\<lparr>el := map_attrib (uid_attrib ''clip-path'' (svg_id self))
      (map_attrib (uid_attrib ''href'' (svg_id self))
        (map_attrib (uid_attrib ''id'' (svg_id self)) (el self)))\<rparr>)"
  by (simp add: uid_def uid_loop_def uid_loop_eq)

text \<open>
  C5: \<open>uid\<close> returns normally on every document, and every element of the document, the
  root included, has each of its \<open>id\<close>, \<open>href\<close> and \<open>clip-path\<close> values replaced by the
  rewritten value; its other attributes are as they were.
\<close>

theorem uid_rewrites_all:
  "get_at (el self) p = Some e \<Longrightarrow>
   \<exists>self' e'. uid self = Inr self' \<and> get_at (el self') p = Some e' \<and>
     (\<forall>k v. k \<in> {''id'', ''href'', ''clip-path''} \<longrightarrow> el_get e k = Some v \<longrightarrow>
        el_get e' k = Some (insert_uid v (svg_id self))) \<and>
     (\<forall>k. k \<notin> {''id'', ''href'', ''clip-path''} \<longrightarrow> el_get e' k = el_get e k)"
proof -
  assume e: "get_at (el self) p = Some e"
  let ?u = "svg_id self"
  let ?e' = "map_attrib (uid_attrib ''clip-path'' ?u)
      (map_attrib (uid_attrib ''href'' ?u) (map_attrib (uid_attrib ''id'' ?u) e))"
  have 1: "get_at (el (self\<lparr>el := map_attrib (uid_attrib ''clip-path'' ?u)
      (map_attrib (uid_attrib ''href'' ?u)
        (map_attrib (uid_attrib ''id'' ?u) (el self)))\<rparr>)) p = Some ?e'"
    using e by (simp add: get_at_map_attrib)
  have g: "\<And>k. el_get ?e' k =
      map_of (uid_attrib ''clip-path'' ?u (uid_attrib ''href'' ?u (uid_attrib ''id'' ?u (attrib e)))) k"
    by (cases e) (simp add: el_get_def)
  have 2: "\<forall>k v. k \<in> {''id'', ''href'', ''clip-path''} \<longrightarrow> el_get e k = Some v \<longrightarrow>
        el_get ?e' k = Some (insert_uid v ?u)"
    by (simp only: g) (auto simp: map_of_uid_attrib el_get_def)
  have 3: "\<forall>k. k \<notin> {''id'', ''href'', ''clip-path''} \<longrightarrow> el_get ?e' k = el_get e k"
    by (simp only: g) (auto simp: map_of_uid_attrib el_get_def)
  show ?thesis using uid_eq [of self] 1 2 3 by blast
qed

theorem uid_rewrites_all_witness:
  "get_at (el \<lparr>el = Element ''svg'' [(''id'', ''fig_1'')] None None
          [Element ''use'' [(''href'', ''#m_1''), (''clip-path'', ''url(#p_1)''), (''x'', ''0'')]
             None None []],
        namespaces = [], svg_id = ''u8''\<rparr>) [0] =
     Some (Element ''use'' [(''href'', ''#m_1''), (''clip-path'', ''url(#p_1)''), (''x'', ''0'')]
             None None []) \<and>
   uid \<lparr>el = Element ''svg'' [(''id'', ''fig_1'')] None None
          [Element ''use'' [(''href'', ''#m_1''), (''clip-path'', ''url(#p_1)''), (''x'', ''0'')]
             None None []],
        namespaces = [], svg_id = ''u8''\<rparr> =
     Inr \<lparr>el = Element ''svg'' [(''id'', ''fig-u8-1'')] None None
          [Element ''use'' [(''href'', ''#m-u8-1''), (''clip-path'', ''url(#p-u8-1)''), (''x'', ''0'')]
             None None []],
        namespaces = [], svg_id = ''u8''\<rparr>"
  using uid_rewrites_all [of "\<lparr>el = Element ''svg'' [(''id'', ''fig_1'')] None None
          [Element ''use'' [(''href'', ''#m_1''), (''clip-path'', ''url(#p_1)''), (''x'', ''0'')]
             None None []],
        namespaces = [], svg_id = ''u8''\<rparr>" "[0]"
      "Element ''use'' [(''href'', ''#m_1''), (''clip-path'', ''url(#p_1)''), (''x'', ''0'')]
             None None []"]
  by (simp add: uid_eq uid_attrib_def insert_uid_def replace_char_def join_nonempty_def)

section \<open>Claims about SVG.classify\<close>

lemma iter_rec_HasAttr_empty:
  "iter_rec ns (HasAttr k) r = [] \<Longrightarrow> \<forall>e\<in>set (elements r). el_get e k = None"
proof (induction r)
  case (Element t a tx ta cs)
  have root: "el_get (Element t a tx ta cs) k = None"
    using Element.prems by (auto simp: iterfind_def split: if_splits)
  have "\<And>c. c \<in> set cs \<Longrightarrow> iter_rec ns (HasAttr k) c = []"
  proof -
    fix c assume "c \<in> set cs"
    then obtain i where "i < length cs" and "cs ! i = c" by (auto simp: in_set_conv_nth)
    then have "(i, c) \<in> set (enumerate 0 cs)" by (simp add: in_set_enumerate_eq)
    moreover have "\<forall>x\<in>set (enumerate 0 cs).
        (case x of (i, c) \<Rightarrow> map ((#) i) (iter_rec ns (HasAttr k) c)) = []"
      using Element.prems by simp
    ultimately show "iter_rec ns (HasAttr k) c = []" by fastforce
  qed
  then have "\<forall>c\<in>set cs. \<forall>e\<in>set (elements c). el_get e k = None"
    using Element.IH by blast
  then show ?case using root by auto
qed

lemma elements_set_text:
  "map attrib (elements (update_at (set_text s) p r)) = map attrib (elements r)"
proof (induction p arbitrary: r)
  case Nil
  show ?case by (cases r) (simp add: set_text_def)
next
  case (Cons i p)
  obtain t a tx ta cs where r: "r = Element t a tx ta cs" by (cases r)
  show ?case
  proof (cases "i < length cs")
    case False
    then show ?thesis by (simp add: r)
  next
    case True
    let ?f = "\<lambda>c. map attrib (elements c)"
    have "map ?f (cs[i := update_at (set_text s) p (cs ! i)]) = (map ?f cs)[i := ?f (cs ! i)]"
      by (simp add: map_update Cons.IH)
    also have "\<dots> = map ?f cs" using True by (simp add: list_update_same_conv)
    finally have "concat (map ?f (cs[i := update_at (set_text s) p (cs ! i)])) =
        concat (map ?f cs)" by simp
    then show ?thesis using True by (simp add: r map_concat comp_def)
  qed
qed

lemma no_attr_set_text:
  assumes "\<forall>e\<in>set (elements r). el_get e k = None"
  shows "\<forall>e\<in>set (elements (update_at (set_text s) p r)). el_get e k = None"
proof
  fix e assume "e \<in> set (elements (update_at (set_text s) p r))"
  then have "attrib e \<in> set (map attrib (elements (update_at (set_text s) p r)))" by simp
  then have "attrib e \<in> set (map attrib (elements r))" by (simp only: elements_set_text)
  then obtain e0 where "e0 \<in> set (elements r)" and "attrib e0 = attrib e" by auto
  then show "el_get e k = None" using assms by (auto simp: el_get_def)
qed

text \<open>
  C2: when \<open>classify\<close> returns normally, no element of the resulting document, the root
  included, has a \<open>style\<close> attribute.
\<close>

theorem classify_no_style:
  "classify self = Inr self' \<Longrightarrow> \<forall>e\<in>set (elements (el self')). el_get e ''style'' = None"
proof -
  assume c: "classify self = Inr self'"
  then obtain r4 p where e: "iter_rec (namespaces self) (HasAttr ''style'') r4 = []"
    and s: "self' = self\<lparr>el := update_at (set_text StyleMap_tostring) p r4\<rparr>"
    by (auto simp: classify_def Let_def split: sum.splits if_splits option.splits)
  from iter_rec_HasAttr_empty [OF e]
  have "\<forall>e\<in>set (elements (update_at (set_text StyleMap_tostring) p r4)). el_get e ''style'' = None"
    by (rule no_attr_set_text)
  then show ?thesis by (simp add: s)
qed

text \<open>
  The assertion does fire: a \<open>style\<close> on an element that is neither \<open>path\<close>, \<open>use\<close> nor
  \<open>text\<close> is left in place by the loops, and \<open>classify\<close> raises.
\<close>

lemma classify_assertion_reachable:
  "classify \<lparr>el = Element ''svg'' [] None None [Element ''g'' [(''style'', ''fill: none'')] None None []],
     namespaces = [], svg_id = ''u''\<rparr> = Inl AssertionError"
  by (simp add: classify_def iterfind_def qualify_def el_get_def)

theorem classify_no_style_witness:
  "classify \<lparr>el = Element ''svg'' [] None None
       [Element ''defs'' [] None None [Element ''style'' [] None None []],
        Element ''path'' [(''style'', ''fill: none; stroke: #1f77b4'')] None None []],
     namespaces = [], svg_id = ''u''\<rparr> =
   Inr \<lparr>el = Element ''svg'' [] None None
       [Element ''defs'' [] None None [Element ''style'' [] (Some StyleMap_tostring) None []],
        Element ''path'' [(''class'', ''blue butt no-fill rounded'')] None None []],
     namespaces = [], svg_id = ''u''\<rparr> \<and>
   map (\<lambda>e. el_get e ''style'') (elements (Element ''svg'' [] None None
       [Element ''defs'' [] None None [Element ''style'' [] (Some StyleMap_tostring) None []],
        Element ''path'' [(''class'', ''blue butt no-fill rounded'')] None None []])) =
     [None, None, None, None]"
proof -
  have h: "classify \<lparr>el = Element ''svg'' [] None None
       [Element ''defs'' [] None None [Element ''style'' [] None None []],
        Element ''path'' [(''style'', ''fill: none; stroke: #1f77b4'')] None None []],
     namespaces = [], svg_id = ''u''\<rparr> =
   Inr \<lparr>el = Element ''svg'' [] None None
       [Element ''defs'' [] None None [Element ''style'' [] (Some StyleMap_tostring) None []],
        Element ''path'' [(''class'', ''blue butt no-fill rounded'')] None None []],
     namespaces = [], svg_id = ''u''\<rparr>"
    by (simp add: classify_def iterfind_def qualify_def el_get_def el_set_def classify_style_def
        attrib_pop_def StyleMap_classify_def global_defaults_def lookup_class_def attributes_def
        stroke_line_cap_def stroke_line_join_def fill_def stroke_def parse_def strip_def
        isspace_def set_none_def style_def set_text_def)
  from classify_no_style [OF h] h show ?thesis by simp
qed

end
